theory Spec2Isabelle
  imports Main
begin

section \<open>Python text primitives used by \<open>caldav/lib/vcal.py\<close>\<close>

text \<open>
  Python \<open>str\<close> values are modelled as \<open>string\<close> (lists of \<open>char\<close>), i.e. texts whose
  code points are below 256. On this range \<open>str.isspace\<close>, the regular expression class
  \<open>\s\<close> and \<open>str.strip\<close> agree on the twelve characters of \<open>is_space\<close>, and \<open>\d\<close> is
  \<open>0\<close> .. \<open>9\<close>.
\<close>

abbreviation NL :: char where "NL \<equiv> CHR 0x0A"
abbreviation CR :: char where "CR \<equiv> CHR 0x0D"
abbreviation BSL :: char where "BSL \<equiv> CHR 0x5C"
abbreviation SQ :: char where "SQ \<equiv> CHR 0x27"
abbreviation DQ :: char where "DQ \<equiv> CHR 0x22"
abbreviation SPC :: char where "SPC \<equiv> CHR 0x20"

definition is_space :: "char \<Rightarrow> bool" where
  "is_space c = (c \<in> set [CHR 0x09, CHR 0x0A, CHR 0x0B, CHR 0x0C, CHR 0x0D, CHR 0x1C, CHR 0x1D,
     CHR 0x1E, CHR 0x1F, CHR 0x20, CHR 0x85, CHR 0xA0])"

definition is_digit :: "char \<Rightarrow> bool" where
  "is_digit c = (c \<in> set ''0123456789'')"

text \<open>\<open>s.startswith(p)\<close> and \<open>s.endswith(p)\<close>.\<close>

definition startswith :: "string \<Rightarrow> string \<Rightarrow> bool" where
  "startswith s p = (take (length p) s = p)"

definition endswith :: "string \<Rightarrow> string \<Rightarrow> bool" where
  "endswith s p = (length p \<le> length s \<and> drop (length s - length p) s = p)"

text \<open>\<open>s.strip()\<close>: leading and trailing whitespace removed.\<close>

definition lstrip :: "string \<Rightarrow> string" where
  "lstrip s = dropWhile is_space s"

definition rstrip :: "string \<Rightarrow> string" where
  "rstrip s = rev (dropWhile is_space (rev s))"

definition strip :: "string \<Rightarrow> string" where
  "strip s = rstrip (lstrip s)"

text \<open>\<open>s.split("\n")\<close>: always at least one field; \<open>"".split("\n") == [""]\<close>.\<close>

fun split_nl :: "string \<Rightarrow> string list" where
  "split_nl [] = [[]]"
| "split_nl (c # cs) =
     (if c = NL then [] # split_nl cs
      else (case split_nl cs of l # ls \<Rightarrow> (c # l) # ls | [] \<Rightarrow> [[c]]))"

text \<open>\<open>"\n".join(ls)\<close>.\<close>

fun join_nl :: "string list \<Rightarrow> string" where
  "join_nl [] = []"
| "join_nl [l] = l"
| "join_nl (l # k # ls) = l @ NL # join_nl (k # ls)"

text \<open>
  \<open>re.sub(pattern, repl, s)\<close> for a pattern whose matches are never empty and that looks
  neither behind nor at anchors: the text is scanned from the left; \<open>m\<close> tries the pattern
  at the current position and returns the expanded replacement and the length of the
  match; after a match the scan resumes behind it, otherwise one character is copied.
\<close>

fun re_sub :: "(string \<Rightarrow> (string \<times> nat) option) \<Rightarrow> string \<Rightarrow> string" where
  "re_sub m [] = []"
| "re_sub m (c # cs) =
     (case m (c # cs) of
        None \<Rightarrow> c # re_sub m cs
      | Some (rep, n) \<Rightarrow> rep @ re_sub m (drop (n - 1) cs))"

text \<open>
  Modelled from the spec: \<open>to_normal_str\<close> of \<open>caldav/lib/python_utilities.py\<close>, whose source
  is not part of the files at hand. The spec's TextCanonicalizer gives text a consistent
  encoding and consistent line endings; the input is taken as already decoded text, and
  every \<open>"\r\n"\<close> becomes \<open>"\n"\<close> (\<open>str.replace\<close>, left to right, not overlapping).
\<close>

definition match_crlf :: "string \<Rightarrow> (string \<times> nat) option" where
  "match_crlf s = (if startswith s [CR, NL] then Some ([NL], 2) else None)"

definition to_normal_str :: "string \<Rightarrow> string" where
  "to_normal_str s = re_sub match_crlf s"

section \<open>The fixup pipeline \<open>fix\<close>\<close>

text \<open>
  Rule 1, \<open>re.sub(r"COMPLETED:(\d+)\s", r"COMPLETED:\g<1>T120000Z", event)\<close>: the digits are
  taken greedily, one whitespace character must follow, and the whole match, the whitespace
  character included, is replaced.
\<close>

definition match_completed :: "string \<Rightarrow> (string \<times> nat) option" where
  "match_completed s =
     (if startswith s ''COMPLETED:'' then
        (let r = drop 10 s; ds = takeWhile is_digit r in
         (case dropWhile is_digit r of
            w # _ \<Rightarrow> if ds \<noteq> [] \<and> is_space w
                     then Some (''COMPLETED:'' @ ds @ ''T120000Z'', 10 + length ds + 1)
                     else None
          | [] \<Rightarrow> None))
      else None)"

definition fix_completed :: "string \<Rightarrow> string" where
  "fix_completed s = re_sub match_completed s"

text \<open>Rule 2, \<open>re.sub("CREATED:00001231T000000Z", "CREATED:19700101T000000Z", fixed)\<close>.\<close>

definition match_created :: "string \<Rightarrow> (string \<times> nat) option" where
  "match_created s =
     (if startswith s ''CREATED:00001231T000000Z''
      then Some (''CREATED:19700101T000000Z'', 24) else None)"

definition fix_created :: "string \<Rightarrow> string" where
  "fix_created s = re_sub match_created s"

text \<open>
  Rule 3, \<open>re.sub(r"\\+('\")", r"\1", fixed)\<close>: one or more backslashes followed by the group
  \<open>('\")\<close>, which is the two characters apostrophe and double quote in this order (a
  parenthesised sequence, not a character class); the match is replaced by the group.
\<close>

definition match_quotes :: "string \<Rightarrow> (string \<times> nat) option" where
  "match_quotes s =
     (let bs = takeWhile (\<lambda>c. c = BSL) s in
      if bs \<noteq> [] \<and> startswith (dropWhile (\<lambda>c. c = BSL) s) [SQ, DQ]
      then Some ([SQ, DQ], length bs + 2) else None)"

definition fix_quotes :: "string \<Rightarrow> string" where
  "fix_quotes s = re_sub match_quotes s"

text \<open>
  Rule 4, \<open>re.sub(" *$", "", fixed)\<close>, called without \<open>re.MULTILINE\<close>: \<open>$\<close> holds at the end of
  the text and just before a newline that is the last character of the text, nowhere else.
  At the first position from which only spaces lead to such a place the spaces are dropped;
  the empty matches that follow are replaced by the empty text.
\<close>

fun fix_trailing :: "string \<Rightarrow> string" where
  "fix_trailing [] = []"
| "fix_trailing (c # cs) =
     (let r = dropWhile (\<lambda>x. x = SPC) (c # cs) in
      if r = [] \<or> r = [NL] then r else c # fix_trailing cs)"

text \<open>The four substitutions in the order of the source.\<close>

definition regex_fixups :: "string \<Rightarrow> string" where
  "regex_fixups event = fix_trailing (fix_quotes (fix_created (fix_completed event)))"

text \<open>
  \<open>LineFilterDiscardingDuplicates\<close>: the object's two counters, and \<open>__call__\<close> returning the
  verdict for a line together with the counters after the call.
\<close>

record line_filter =
  stamped :: int
  ended :: int

definition line_filter_init :: line_filter where
  "line_filter_init = \<lparr>stamped = 0, ended = 0\<rparr>"

definition is_begin :: "string \<Rightarrow> bool" where
  "is_begin line = startswith line ''BEGIN:V''"

definition is_colon_or_semi :: "string \<Rightarrow> bool" where
  "is_colon_or_semi r = (case r of c # _ \<Rightarrow> c = CHR '':'' \<or> c = CHR '';'' | [] \<Rightarrow> False)"

text \<open>\<open>re.match("(DURATION|DTEND|DUE)[:;]", line)\<close>\<close>

definition is_end_prop :: "string \<Rightarrow> bool" where
  "is_end_prop line =
     ((startswith line ''DURATION'' \<and> is_colon_or_semi (drop 8 line)) \<or>
      (startswith line ''DTEND'' \<and> is_colon_or_semi (drop 5 line)) \<or>
      (startswith line ''DUE'' \<and> is_colon_or_semi (drop 3 line)))"

text \<open>\<open>re.match("DTSTAMP[:;]", line)\<close>\<close>

definition is_stamp_prop :: "string \<Rightarrow> bool" where
  "is_stamp_prop line = (startswith line ''DTSTAMP'' \<and> is_colon_or_semi (drop 7 line))"

definition line_filter_call :: "line_filter \<Rightarrow> string \<Rightarrow> bool \<times> line_filter" where
  "line_filter_call st line =
     (if is_begin line then (True, st\<lparr>stamped := 0, ended := 0\<rparr>)
      else if is_end_prop line then
        (if ended st \<noteq> 0 then (False, st) else (True, st\<lparr>ended := ended st + 1\<rparr>))
      else if is_stamp_prop line then
        (if stamped st \<noteq> 0 then (False, st) else (True, st\<lparr>stamped := stamped st + 1\<rparr>))
      else (True, st))"

text \<open>\<open>filter(f, lines)\<close> with the stateful callable \<open>f\<close>, lines taken in order.\<close>

fun filter_lines :: "line_filter \<Rightarrow> string list \<Rightarrow> string list" where
  "filter_lines st [] = []"
| "filter_lines st (l # ls) =
     (case line_filter_call st l of
        (True, st') \<Rightarrow> l # filter_lines st' ls
      | (False, st') \<Rightarrow> filter_lines st' ls)"

text \<open>The text \<open>event\<close> after the first three lines of \<open>fix\<close>.\<close>

definition canonical :: "string \<Rightarrow> string" where
  "canonical event =
     (let e = to_normal_str event in if \<not> endswith e [NL] then e @ [NL] else e)"

text \<open>\<open>fixed2\<close>: the lines of the stripped text that pass the filter, joined, plus a newline.\<close>

definition fixed2 :: "string \<Rightarrow> string" where
  "fixed2 event =
     join_nl (filter_lines line_filter_init (split_nl (strip (regex_fixups (canonical event)))))
     @ [NL]"

text \<open>
  \<open>fix\<close> with the module-level counter \<open>fixup_error_loggings\<close> passed in and returned
  (\<open>fix\<close> is a keyword of Isar, hence the names \<open>vcal_fix_counted\<close> and \<open>vcal_fix\<close>). The log
  calls write to the logging sink only and are left out.
\<close>

definition vcal_fix_counted :: "int \<Rightarrow> string \<Rightarrow> string \<times> int" where
  "vcal_fix_counted fixup_error_loggings event =
     (let ev = canonical event; f2 = fixed2 event in
      if f2 \<noteq> ev then (f2, fixup_error_loggings + 1) else (f2, fixup_error_loggings))"

definition vcal_fix :: "string \<Rightarrow> string" where
  "vcal_fix event = fst (vcal_fix_counted 0 event)"

text \<open>The lines handed to the filter: \<open>fixed.strip().split("\n")\<close>.\<close>

definition fixed_lines :: "string \<Rightarrow> string list" where
  "fixed_lines event = split_nl (strip (regex_fixups (canonical event)))"

subsection \<open>The policy of the filter in the words of the specification\<close>

text \<open>
  Keep the first element with property \<open>P\<close> and drop every later one that has it; elements
  without the property stay.
\<close>

fun drop_later :: "('a \<Rightarrow> bool) \<Rightarrow> 'a list \<Rightarrow> 'a list" where
  "drop_later P [] = []"
| "drop_later P (x # xs) =
     (if P x then x # filter (\<lambda>y. \<not> P y) xs else x # drop_later P xs)"

text \<open>
  Within one block: the first line of the group \<open>DURATION\<close>, \<open>DTEND\<close>, \<open>DUE\<close> and the first
  \<open>DTSTAMP\<close> line stay, later ones of either kind go.
\<close>

definition keep_firsts :: "string list \<Rightarrow> string list" where
  "keep_firsts blk = drop_later is_end_prop (drop_later is_stamp_prop blk)"

text \<open>The counters after a run over some lines, and the lines a block keeps from any counters.\<close>

fun run_filter :: "line_filter \<Rightarrow> string list \<Rightarrow> line_filter" where
  "run_filter st [] = st"
| "run_filter st (l # ls) = run_filter (snd (line_filter_call st l)) ls"

definition block_of :: "line_filter \<Rightarrow> string list \<Rightarrow> string list" where
  "block_of st blk =
     (if ended st \<noteq> 0 then filter (\<lambda>l. \<not> is_end_prop l) else drop_later is_end_prop)
       ((if stamped st \<noteq> 0 then filter (\<lambda>l. \<not> is_stamp_prop l)
         else drop_later is_stamp_prop) blk)"

section \<open>\<open>create_ical\<close>\<close>

subsection \<open>Values, components and the library\<close>

text \<open>
  \<open>datetime.datetime\<close>: the wall clock reading (year, month, day, hour, minute, second) as
  the count of seconds since 0001-01-01T00:00:00 on that clock, which determines the six
  fields and is determined by them, and \<open>tzinfo\<close>, the offset from UTC in seconds of an aware
  value or \<open>None\<close> for a naive one.
\<close>

record datetime =
  wall :: int
  tzinfo :: "int option"

text \<open>The values a caller passes in \<open>**props\<close>.\<close>

datatype pvalue = PNone | PStr string | PSeq "string list" | PDatetime datetime

text \<open>Python truthiness, as \<open>not props.get(...)\<close> tests it.\<close>

fun truthy :: "pvalue \<Rightarrow> bool" where
  "truthy PNone = False"
| "truthy (PStr s) = (s \<noteq> [])"
| "truthy (PSeq xs) = (xs \<noteq> [])"
| "truthy (PDatetime d) = True"

text \<open>
  A component of the \<open>icalendar\<close> library: its name, its properties in the order they were
  added (name, value, parameters) and its subcomponents.
\<close>

datatype component =
  Component (cname: string) (cprops: "(string \<times> pvalue \<times> (string \<times> string) list) list")
    (subcomponents: "component list")

text \<open>\<open>component.add(name, value, parameters=...)\<close> and \<open>add_component\<close>.\<close>

fun add :: "string \<Rightarrow> pvalue \<Rightarrow> (string \<times> string) list \<Rightarrow> component \<Rightarrow> component" where
  "add name v params (Component n ps subs) = Component n (ps @ [(name, v, params)]) subs"

fun add_component :: "component \<Rightarrow> component \<Rightarrow> component" where
  "add_component sub (Component n ps subs) = Component n ps (subs @ [sub])"

text \<open>
  What \<open>create_ical\<close> takes from outside: the parser and the serializer of \<open>icalendar\<close>
  (\<open>Calendar.from_ical\<close> fails on text it cannot parse), its table of component classes,
  the clock, the generator of identifiers, and the offset of the system's time zone at a
  local wall clock reading.
\<close>

record env =
  from_ical :: "string \<Rightarrow> component option"
  to_ical :: "component \<Rightarrow> string"
  component_factory :: "string \<Rightarrow> component option"
  now_utc :: datetime
  uuid1 :: string
  local_utcoffset :: "int \<Rightarrow> int"

datatype error = ValueError | IndexError | KeyError | TypeError | ReError

text \<open>
  \<open>d.astimezone(datetime.timezone.utc)\<close> for a naive \<open>d\<close>: the standard library takes a naive
  value as local time of the system, and returns the same instant on the UTC clock. The
  range of \<open>datetime\<close> (years 1 to 9999) is not modelled: \<open>wall\<close> is an unbounded integer, and
  the \<open>OverflowError\<close> of a value pushed over either end of the range has no counterpart.
\<close>

definition astimezone_utc :: "env \<Rightarrow> datetime \<Rightarrow> datetime" where
  "astimezone_utc e d =
     (case tzinfo d of
        None \<Rightarrow> \<lparr>wall = wall d - local_utcoffset e (wall d), tzinfo = Some 0\<rparr>
      | Some off \<Rightarrow> \<lparr>wall = wall d - off, tzinfo = Some 0\<rparr>)"

subsection \<open>Text searches\<close>

text \<open>\<open>p in s\<close> for strings.\<close>

fun contains :: "string \<Rightarrow> string \<Rightarrow> bool" where
  "contains [] p = (p = [])"
| "contains (c # cs) p = (startswith (c # cs) p \<or> contains cs p)"

text \<open>
  The first position at the start of a line (the start of the text or just behind a newline,
  as \<open>^\<close> under \<open>re.MULTILINE\<close>) where the text goes on with the literal \<open>p\<close>; \<open>bol\<close> tells
  whether the current position starts a line.
\<close>

fun find_bol :: "string \<Rightarrow> bool \<Rightarrow> string \<Rightarrow> nat option" where
  "find_bol p bol [] = (if bol \<and> p = [] then Some 0 else None)"
| "find_bol p bol (c # cs) =
     (if bol \<and> startswith (c # cs) p then Some 0
      else map_option Suc (find_bol p (c = NL) cs))"

text \<open>\<open>re.search("^BEGIN:V", s, re.MULTILINE)\<close> as a truth value.\<close>

definition search_begin :: "string \<Rightarrow> bool" where
  "search_begin s = (find_bol ''BEGIN:V'' True s \<noteq> None)"

subsection \<open>The replacement template of \<open>re.sub\<close>\<close>

definition is_octdigit :: "char \<Rightarrow> bool" where
  "is_octdigit c = (c \<in> set ''01234567'')"

definition is_ascii_letter :: "char \<Rightarrow> bool" where
  "is_ascii_letter c = (c \<in> set ''abcdefghijklmnopqrstuvwxyzABCDEFGHIJKLMNOPQRSTUVWXYZ'')"

definition digit_val :: "char \<Rightarrow> nat" where
  "digit_val c = of_char c - 48"

definition oct_val :: "string \<Rightarrow> nat" where
  "oct_val ds = foldl (\<lambda>a c. 8 * a + digit_val c) 0 ds"

text \<open>The escapes of a template that stand for one character.\<close>

definition template_escape :: "char \<Rightarrow> char option" where
  "template_escape c =
     (if c = CHR ''a'' then Some (CHR 0x07) else if c = CHR ''b'' then Some (CHR 0x08)
      else if c = CHR ''f'' then Some (CHR 0x0C) else if c = CHR ''n'' then Some NL
      else if c = CHR ''r'' then Some CR else if c = CHR ''t'' then Some (CHR 0x09)
      else if c = CHR ''v'' then Some (CHR 0x0B) else if c = BSL then Some BSL
      else None)"

text \<open>
  The replacement text that \<open>re.sub\<close> makes of a template for a pattern without groups, where
  \<open>g0\<close> is the matched text (\<open>parse_template\<close> of the standard library, group names checked
  as from Python 3.12 on): a backslash starts an escape; \<open>\g<0>\<close> is the match and any other
  group reference is an error; \<open>\0\<close> with up to two more octal digits and three octal digits
  are a character code; the escapes above are one character; a backslash before another
  ASCII letter is an error, before any other character it stays with that character.
  \<open>None\<close> is \<open>re.error\<close> (or \<open>IndexError\<close> for an unknown group name).
\<close>

function expand_template :: "string \<Rightarrow> string \<Rightarrow> string option" where
  "expand_template g0 [] = Some []"
| "expand_template g0 [c] = (if c = BSL then None else Some [c])"
| "expand_template g0 (c # d # r) =
     (if c \<noteq> BSL then map_option (\<lambda>t. c # t) (expand_template g0 (d # r))
      else if d = CHR ''g'' then
        (case r of
           [] \<Rightarrow> None
         | lt # r2 \<Rightarrow>
             (let name = takeWhile (\<lambda>x. x \<noteq> CHR ''>'') r2;
                  rest = dropWhile (\<lambda>x. x \<noteq> CHR ''>'') r2 in
              if lt \<noteq> CHR ''<'' \<or> rest = [] \<or> name = [] then None
              else if list_all is_digit name \<and> list_all (\<lambda>x. x = CHR ''0'') name
              then map_option (\<lambda>t. g0 @ t) (expand_template g0 (tl rest))
              else None))
      else if d = CHR ''0'' then
        (let ds = takeWhile is_octdigit (take 2 r) in
         map_option (\<lambda>t. char_of (oct_val ds mod 256) # t)
           (expand_template g0 (drop (length ds) r)))
      else if is_digit d then
        (if is_octdigit d \<and> length (takeWhile is_octdigit (take 2 r)) = 2 \<and>
            oct_val (d # take 2 r) \<le> 255
         then map_option (\<lambda>t. char_of (oct_val (d # take 2 r)) # t)
                (expand_template g0 (drop 2 r))
         else None)
      else (case template_escape d of
              Some x \<Rightarrow> map_option (\<lambda>t. x # t) (expand_template g0 r)
            | None \<Rightarrow> if is_ascii_letter d then None
                      else map_option (\<lambda>t. c # d # t) (expand_template g0 r)))"
  by pat_completeness auto
termination
proof (relation "measure (\<lambda>(g0, s). length s)")
  show "wf (measure (\<lambda>(g0, s). length s))" by simp
next
  fix g0 :: string and c d :: char and r :: string and x21 :: char and x22 xa xb :: string
  assume "r = x21 # x22" "xa = takeWhile (\<lambda>x. x \<noteq> CHR ''>'') x22"
    "xb = dropWhile (\<lambda>x. x \<noteq> CHR ''>'') x22"
  then have "length (tl xb) \<le> length x22"
    using length_dropWhile_le [of "\<lambda>x. x \<noteq> CHR ''>''" x22] by simp
  with \<open>r = x21 # x22\<close> show "((g0, tl xb), g0, c # d # r) \<in> measure (\<lambda>(g0, s). length s)"
    by simp
qed auto

text \<open>
  \<open>re.sub("^END:V", repl, ret, flags=re.MULTILINE, count=1)\<close>: the template is compiled
  first, then the first match, if there is one, is replaced. \<open>ReError\<close> stands for every
  failure of the template, \<open>re.error\<close> and the \<open>IndexError\<close> of an unknown group name alike.
\<close>

definition sub_end_once :: "string \<Rightarrow> string \<Rightarrow> error + string" where
  "sub_end_once repl ret =
     (case expand_template ''END:V'' repl of
        None \<Rightarrow> Inl ReError
      | Some t \<Rightarrow>
          (case find_bol ''END:V'' True ret of
             None \<Rightarrow> Inr ret
           | Some i \<Rightarrow> Inr (take i ret @ t @ drop (i + 5) ret)))"

text \<open>
  The words of the claims about the splice: the text \<open>frag\<close> and a newline put, as they are,
  immediately before the first line that starts with \<open>END:V\<close>.
\<close>

definition splice_before_first_end :: "string \<Rightarrow> string \<Rightarrow> string" where
  "splice_before_first_end frag ret =
     (case find_bol ''END:V'' True ret of
        None \<Rightarrow> ret
      | Some i \<Rightarrow> take i ret @ frag @ [NL] @ drop i ret)"

subsection \<open>The function\<close>

text \<open>\<open>props.get(k)\<close> and \<open>props[k] = v\<close> on the keyword dictionary, kept in insertion order.\<close>

definition dict_get :: "(string \<times> pvalue) list \<Rightarrow> string \<Rightarrow> pvalue" where
  "dict_get props k = (case map_of props k of None \<Rightarrow> PNone | Some v \<Rightarrow> v)"

fun dict_set :: "(string \<times> pvalue) list \<Rightarrow> string \<Rightarrow> pvalue \<Rightarrow> (string \<times> pvalue) list" where
  "dict_set [] k v = [(k, v)]"
| "dict_set ((k', v') # ps) k v = (if k' = k then (k, v) # ps else (k', v') # dict_set ps k v)"

text \<open>\<open>ical_fragment or ""\<close>, and \<open>not ical_fragment\<close>.\<close>

definition or_empty :: "string option \<Rightarrow> string" where
  "or_empty f = (case f of None \<Rightarrow> [] | Some s \<Rightarrow> s)"

definition to_upper :: "char \<Rightarrow> char" where
  "to_upper c = (if c \<in> set ''abcdefghijklmnopqrstuvwxyz'' then char_of (of_char c - (32::nat)) else c)"

text \<open>
  Lines 154 to 172, the branch that builds a fresh calendar: the calendar \<open>my_instance\<close>, whose
  first subcomponent is the object \<open>component\<close>, the dictionary \<open>props\<close> and \<open>ical_fragment\<close>.
\<close>

definition construct ::
  "env \<Rightarrow> string option \<Rightarrow> string option \<Rightarrow> string \<Rightarrow> (string \<times> pvalue) list
   \<Rightarrow> error + (component \<times> (string \<times> pvalue) list \<times> string option)" where
  "construct e ical_fragment objtype0 language props =
     (let my_instance = add ''version'' (PStr ''2.0'') []
            (add ''prodid'' (PStr (''-//python-caldav//caldav//'' @ language)) []
              (Component ''VCALENDAR'' [] []));
          objtype = (case objtype0 of None \<Rightarrow> ''VEVENT'' | Some t \<Rightarrow> t) in
      case component_factory e objtype of
        None \<Rightarrow> Inl KeyError
      | Some c0 \<Rightarrow>
          (let c1 = add ''dtstamp'' (PDatetime (now_utc e)) [] c0;
               component = (if \<not> truthy (dict_get props ''uid'') \<and>
                               \<not> contains (or_empty ical_fragment) (NL # ''UID:'')
                            then add ''uid'' (PStr (uuid1 e)) [] c1 else c1);
               props' = (if \<not> truthy (dict_get props ''status'') \<and>
                            \<not> contains (or_empty ical_fragment) (NL # ''STATUS:'') \<and>
                            objtype = ''VTODO''
                         then dict_set props ''status'' (PStr ''NEEDS-ACTION'') else props) in
           Inr (add_component component my_instance, props', ical_fragment)))"

text \<open>
  Lines 175 to 183, the branch for a fragment with a component in it: the fragment is wrapped
  into a calendar if it is not one, parsed, and then set to \<open>None\<close>.
\<close>

definition augment ::
  "env \<Rightarrow> string \<Rightarrow> (string \<times> pvalue) list
   \<Rightarrow> error + (component \<times> (string \<times> pvalue) list \<times> string option)" where
  "augment e ical_fragment props =
     (let text = (if \<not> startswith (strip ical_fragment) ''BEGIN:VCALENDAR''
                  then ''BEGIN:VCALENDAR'' @ [NL] @ to_normal_str (strip ical_fragment) @
                       [NL] @ ''END:VCALENDAR'' @ [NL]
                  else ical_fragment) in
      case from_ical e text of
        None \<Rightarrow> Inl ValueError
      | Some my_instance \<Rightarrow>
          (case subcomponents my_instance of
             [] \<Rightarrow> Inl IndexError
           | component # _ \<Rightarrow> Inr (my_instance, props, None)))"

text \<open>
  The text that the branch of lines 175 to 183 hands to the parser: the fragment itself when,
  stripped, it starts a calendar, and the stripped fragment wrapped into one otherwise.
\<close>

definition calendar_text :: "string \<Rightarrow> string" where
  "calendar_text ical_fragment =
     (if \<not> startswith (strip ical_fragment) ''BEGIN:VCALENDAR''
      then ''BEGIN:VCALENDAR'' @ [NL] @ to_normal_str (strip ical_fragment) @
           [NL] @ ''END:VCALENDAR'' @ [NL]
      else ical_fragment)"

text \<open>
  The body of the loop over \<open>props\<close> (lines 186 to 199) for the key \<open>prop\<close> with value \<open>v\<close>,
  on the object \<open>component\<close>. Iterating a string yields its characters; a \<open>datetime\<close> cannot
  be iterated.
\<close>

definition merge_prop :: "env \<Rightarrow> string \<Rightarrow> pvalue \<Rightarrow> component \<Rightarrow> error + component" where
  "merge_prop e prop v component =
     (if v = PNone then Inr component
      else
        (let v' = (case v of
                     PDatetime d \<Rightarrow> if tzinfo d = None then PDatetime (astimezone_utc e d) else v
                   | _ \<Rightarrow> v);
             relate = (\<lambda>c x. add ''related-to'' (PStr x) [(''reltype'', map to_upper prop)] c) in
         if prop = ''child'' \<or> prop = ''parent'' then
           (case v' of
              PSeq xs \<Rightarrow> Inr (foldl relate component xs)
            | PStr s \<Rightarrow> Inr (foldl relate component (map (\<lambda>c. [c]) s))
            | _ \<Rightarrow> Inl TypeError)
         else Inr (add prop v' [] component)))"

fun merge_props :: "env \<Rightarrow> (string \<times> pvalue) list \<Rightarrow> component \<Rightarrow> error + component" where
  "merge_props e [] component = Inr component"
| "merge_props e ((prop, v) # ps) component =
     (case merge_prop e prop v component of
        Inl x \<Rightarrow> Inl x
      | Inr c \<Rightarrow> merge_props e ps c)"

text \<open>
  Lines 152 to 199: the calendar \<open>my_instance\<close> as it is handed to \<open>to_ical\<close>, and the value of
  \<open>ical_fragment\<close> at that point. \<open>component\<close> is the object at \<open>my_instance.subcomponents[0]\<close>,
  so what the loop adds to it shows in the calendar.
\<close>

definition merged_tree ::
  "env \<Rightarrow> string option \<Rightarrow> string option \<Rightarrow> string \<Rightarrow> (string \<times> pvalue) list
   \<Rightarrow> error + (component \<times> string option)" where
  "merged_tree e ical_fragment0 objtype language props0 =
     (let ical_fragment = map_option to_normal_str ical_fragment0 in
      case (case ical_fragment of
              None \<Rightarrow> construct e ical_fragment objtype language props0
            | Some f \<Rightarrow> if f = [] \<or> \<not> search_begin f
                        then construct e ical_fragment objtype language props0
                        else augment e f props0) of
        Inl x \<Rightarrow> Inl x
      | Inr (my_instance, props, frag) \<Rightarrow>
          (case subcomponents my_instance of
             [] \<Rightarrow> Inl IndexError
           | component # others \<Rightarrow>
               (case merge_props e props component of
                  Inl x \<Rightarrow> Inl x
                | Inr c \<Rightarrow>
                    Inr (Component (cname my_instance) (cprops my_instance) (c # others), frag))))"

text \<open>Lines 200 to 209: serialization, and the splice when a fragment is left.\<close>

definition create_ical ::
  "env \<Rightarrow> string option \<Rightarrow> string option \<Rightarrow> string \<Rightarrow> (string \<times> pvalue) list
   \<Rightarrow> error + string" where
  "create_ical e ical_fragment objtype language props =
     (case merged_tree e ical_fragment objtype language props of
        Inl x \<Rightarrow> Inl x
      | Inr (my_instance, frag) \<Rightarrow>
          (let ret = to_normal_str (to_ical e my_instance) in
           case frag of
             None \<Rightarrow> Inr ret
           | Some f \<Rightarrow>
               if f \<noteq> [] \<and> strip f \<noteq> []
               then sub_end_once (strip f @ [NL] @ ''END:V'') ret
               else Inr ret))"

subsection \<open>The library at the documents used below\<close>

text \<open>
  The calendar that \<open>Calendar.from_ical\<close> returns for an event with a summary, the calendar
  that \<open>create_ical\<close> builds from no properties, and the text that \<open>to_ical\<close> returns for each.
\<close>

definition parsed_event :: component where
  "parsed_event =
     Component ''VCALENDAR'' [] [Component ''VEVENT'' [(''SUMMARY'', PStr ''x'', [])] []]"

definition parsed_event_text :: string where
  "parsed_event_text =
     ''BEGIN:VCALENDAR'' @ [CR, NL] @ ''BEGIN:VEVENT'' @ [CR, NL] @ ''SUMMARY:x'' @ [CR, NL] @
     ''END:VEVENT'' @ [CR, NL] @ ''END:VCALENDAR'' @ [CR, NL]"

definition fresh_event :: component where
  "fresh_event =
     Component ''VCALENDAR''
       [(''prodid'', PStr ''-//python-caldav//caldav//en_DK'', []), (''version'', PStr ''2.0'', [])]
       [Component ''VEVENT''
          [(''dtstamp'', PDatetime \<lparr>wall = 63713433600, tzinfo = Some 0\<rparr>, []),
           (''uid'', PStr ''u1'', [])] []]"

definition fresh_event_text :: string where
  "fresh_event_text =
     ''BEGIN:VCALENDAR'' @ [CR, NL] @ ''VERSION:2.0'' @ [CR, NL] @
     ''PRODID:-//python-caldav//caldav//en_DK'' @ [CR, NL] @ ''BEGIN:VEVENT'' @ [CR, NL] @
     ''DTSTAMP:20200101T000000Z'' @ [CR, NL] @ ''UID:u1'' @ [CR, NL] @
     ''END:VEVENT'' @ [CR, NL] @ ''END:VCALENDAR'' @ [CR, NL]"

text \<open>
  An environment: the library with the answers above, the clock at 2020-01-01T00:00:00Z, and
  a system whose time zone is one hour east of UTC.
\<close>

definition sample_env :: env where
  "sample_env =
     \<lparr>from_ical = (\<lambda>s. if s = ''BEGIN:VCALENDAR\<newline>BEGIN:VEVENT\<newline>SUMMARY:x\<newline>END:VEVENT\<newline>END:VCALENDAR\<newline>''
                        then Some parsed_event else None),
      to_ical = (\<lambda>c. if c = parsed_event then parsed_event_text
                      else if c = fresh_event then fresh_event_text else []),
      component_factory = (\<lambda>n. if n \<in> set [''VEVENT'', ''VTODO'', ''VJOURNAL'', ''VFREEBUSY'',
                                   ''VTIMEZONE'', ''STANDARD'', ''DAYLIGHT'', ''VALARM'', ''VCALENDAR'']
                                then Some (Component n [] []) else None),
      now_utc = \<lparr>wall = 63713433600, tzinfo = Some 0\<rparr>,
      uuid1 = ''u1'',
      local_utcoffset = (\<lambda>w. 3600)\<rparr>"

text \<open>
  The event above with a location merged in, its text, and the environment whose serializer
  knows this calendar too.
\<close>

definition located_event :: component where
  "located_event =
     Component ''VCALENDAR'' []
       [Component ''VEVENT'' [(''SUMMARY'', PStr ''x'', []), (''location'', PStr ''here'', [])] []]"

definition located_event_text :: string where
  "located_event_text =
     ''BEGIN:VCALENDAR'' @ [CR, NL] @ ''BEGIN:VEVENT'' @ [CR, NL] @ ''SUMMARY:x'' @ [CR, NL] @
     ''LOCATION:here'' @ [CR, NL] @ ''END:VEVENT'' @ [CR, NL] @ ''END:VCALENDAR'' @ [CR, NL]"

definition sample_env_located :: env where
  "sample_env_located =
     sample_env\<lparr>to_ical := (\<lambda>c. if c = located_event then located_event_text
                                  else to_ical sample_env c)\<rparr>"

subsection \<open>Positions without a match\<close>

text \<open>
  No position of the text is one where the pattern \<open>m\<close> matches; on such a text \<open>re_sub\<close>
  changes nothing. The three predicates after it say what the proofs need of the patterns:
  with which characters replacements start, that a match is decided by a first character and
  a stretch free of those characters, and that a replacement put before a text without
  matches gives a text without matches.
\<close>

fun nomatch :: "(string \<Rightarrow> (string \<times> nat) option) \<Rightarrow> string \<Rightarrow> bool" where
  "nomatch m [] = True"
| "nomatch m (c # cs) = (m (c # cs) = None \<and> nomatch m cs)"

definition rep_heads :: "(string \<Rightarrow> (string \<times> nat) option) \<Rightarrow> char set \<Rightarrow> bool" where
  "rep_heads m F = (\<forall>s rep n. m s = Some (rep, n) \<longrightarrow> rep \<noteq> [] \<and> hd rep \<in> F)"

definition tail_free :: "(string \<Rightarrow> (string \<times> nat) option) \<Rightarrow> char set \<Rightarrow> bool" where
  "tail_free m F = (\<forall>s r. m s = Some r \<longrightarrow>
     (\<exists>a p t. s = a # p @ t \<and> set p \<inter> F = {} \<and> (\<forall>t'. m (a # p @ t') = Some r)))"

definition rep_clean ::
  "(string \<Rightarrow> (string \<times> nat) option) \<Rightarrow> (string \<Rightarrow> (string \<times> nat) option) \<Rightarrow> bool" where
  "rep_clean m' m = (\<forall>s rep n t. m s = Some (rep, n) \<longrightarrow> nomatch m' t \<longrightarrow> nomatch m' (rep @ t))"

text \<open>The characters that the replacements of the first three rules start with.\<close>

abbreviation FH :: "char set" where "FH \<equiv> {CHR ''C'', SQ}"

text \<open>The first three substitution rules in a row.\<close>

definition three_rules :: "string \<Rightarrow> string" where
  "three_rules s = fix_quotes (fix_created (fix_completed s))"

text \<open>
  A pattern that looks no further than the end of the line: the outcome at a position is
  decided by the text up to the next newline.
\<close>

definition line_local :: "(string \<Rightarrow> (string \<times> nat) option) \<Rightarrow> bool" where
  "line_local m = (\<forall>l t. NL \<notin> set l \<longrightarrow> m (l @ NL # t) = m (l @ [NL]))"

text \<open>The number of carriage returns in a text.\<close>

definition count_cr :: "string \<Rightarrow> nat" where
  "count_cr s = length (filter (\<lambda>c. c = CR) s)"

text \<open>
  A text with no carriage return directly before a newline and no whitespace character
  directly before its last character.
\<close>

definition settled :: "string \<Rightarrow> bool" where
  "settled y = (\<not> contains y [CR, NL] \<and> (butlast y = [] \<or> \<not> is_space (last (butlast y))))"

section \<open>Properties of the fixup pipeline\<close>

subsection \<open>The error counter\<close>

text \<open>
  C9: a call of \<open>fix\<close> adds exactly one to \<open>fixup_error_loggings\<close> when the filtered and fixed
  text \<open>fixed2\<close> differs from the canonicalized input \<open>event\<close>, and leaves the counter as it
  was when the two are equal.
\<close>

theorem fix_counter_increment:
  "(fst (vcal_fix_counted n e) \<noteq> canonical e \<longrightarrow> snd (vcal_fix_counted n e) = n + 1) \<and>
   (fst (vcal_fix_counted n e) = canonical e \<longrightarrow> snd (vcal_fix_counted n e) = n)"
  by (simp add: vcal_fix_counted_def Let_def)

theorem fix_counter_increment_witness:
  "fst (vcal_fix_counted 3 '' A\<newline>'') \<noteq> canonical '' A\<newline>'' \<and>
   snd (vcal_fix_counted 3 '' A\<newline>'') = 4 \<and>
   fst (vcal_fix_counted 3 ''A\<newline>'') = canonical ''A\<newline>'' \<and>
   snd (vcal_fix_counted 3 ''A\<newline>'') = 3"
proof -
  have changed: "fst (vcal_fix_counted 3 '' A\<newline>'') \<noteq> canonical '' A\<newline>''"
    by code_simp
  have same: "fst (vcal_fix_counted 3 ''A\<newline>'') = canonical ''A\<newline>''"
    by code_simp
  from changed fix_counter_increment [of 3 "'' A\<newline>''"]
  have "snd (vcal_fix_counted 3 '' A\<newline>'') = 4" by simp
  moreover from same fix_counter_increment [of 3 "''A\<newline>''"]
  have "snd (vcal_fix_counted 3 ''A\<newline>'') = 3" by simp
  ultimately show ?thesis using changed same by simp
qed

subsection \<open>Trailing spaces\<close>

text \<open>
  C2: the claim is that the pipeline removes the spaces at the end of every line. Rule 4 is
  called without \<open>re.MULTILINE\<close>, so only the spaces before the end of the whole text go: here
  the two spaces that end the second line of a three-line event are still there after \<open>fix\<close>.
\<close>

theorem fix_keeps_inner_trailing_spaces:
  "vcal_fix ''BEGIN:VEVENT\<newline>X-APPLE-STRUCTURED-EVENT:a  \<newline>END:VEVENT\<newline>''
   = ''BEGIN:VEVENT\<newline>X-APPLE-STRUCTURED-EVENT:a  \<newline>END:VEVENT\<newline>''"
  by code_simp

subsection \<open>Number of lines\<close>

text \<open>
  C8: the claim is that no substitution rule changes the number of lines. The match of rule 1
  includes the whitespace character behind the digits and the replacement does not put it
  back; when that character is the newline, the \<open>COMPLETED\<close> line and the line after it
  become one line, and the task below has one line less after rule 1 and after \<open>fix\<close>.
\<close>

theorem fix_completed_merges_lines:
  "fix_completed ''BEGIN:VTODO\<newline>COMPLETED:20200101\<newline>SUMMARY:x\<newline>END:VTODO\<newline>''
     = ''BEGIN:VTODO\<newline>COMPLETED:20200101T120000ZSUMMARY:x\<newline>END:VTODO\<newline>'' \<and>
   vcal_fix ''BEGIN:VTODO\<newline>COMPLETED:20200101\<newline>SUMMARY:x\<newline>END:VTODO\<newline>''
     = ''BEGIN:VTODO\<newline>COMPLETED:20200101T120000ZSUMMARY:x\<newline>END:VTODO\<newline>'' \<and>
   length (split_nl ''BEGIN:VTODO\<newline>COMPLETED:20200101\<newline>SUMMARY:x\<newline>END:VTODO\<newline>'') = 5 \<and>
   length (split_nl (fix_completed
     ''BEGIN:VTODO\<newline>COMPLETED:20200101\<newline>SUMMARY:x\<newline>END:VTODO\<newline>'')) = 4"
  by code_simp

subsection \<open>Backslashes before quotes\<close>

text \<open>
  C3: the claim is that backslashes before a quote character are stripped, a lone backslash
  before a double quote in particular. The group of rule 3 is the sequence apostrophe,
  double quote, so a backslash before a double quote alone stays: \<open>fix\<close> returns the summary
  \<open>say \"hi\"\<close> with both backslashes in place.
\<close>

theorem fix_keeps_backslash_before_double_quote:
  "vcal_fix (''SUMMARY:say '' @ [BSL, DQ] @ ''hi'' @ [BSL, DQ] @ ''\<newline>'')
   = ''SUMMARY:say '' @ [BSL, DQ] @ ''hi'' @ [BSL, DQ] @ ''\<newline>''"
  by code_simp

subsection \<open>The duplicate-line filter\<close>

lemma startswith_Cons:
  "startswith l (c # p) = (case l of [] \<Rightarrow> False | x # r \<Rightarrow> x = c \<and> startswith r p)"
  by (cases l) (auto simp: startswith_def)

lemma startswith_Nil [simp]: "startswith l []"
  by (simp add: startswith_def)

lemma end_not_stamp: "is_end_prop l \<Longrightarrow> \<not> is_stamp_prop l"
  by (auto simp: is_end_prop_def is_stamp_prop_def startswith_Cons split: list.splits)

lemma filter_lines_append:
  "filter_lines st (xs @ ys) = filter_lines st xs @ filter_lines (run_filter st xs) ys"
  by (induction xs arbitrary: st) (auto split: prod.splits bool.splits)

lemma filter_lines_begin:
  "is_begin b \<Longrightarrow> filter_lines st (b # ls) = b # filter_lines line_filter_init ls"
  by (cases st) (simp add: line_filter_call_def line_filter_init_def)

lemma filter_lines_block:
  "\<forall>l\<in>set blk. \<not> is_begin l \<Longrightarrow> filter_lines st blk = block_of st blk"
proof (induction blk arbitrary: st)
  case Nil
  then show ?case by (simp add: block_of_def)
next
  case (Cons l ls)
  then show ?case
    by (auto simp: block_of_def line_filter_call_def end_not_stamp)
qed

lemma filter_lines_reset:
  "rest = [] \<or> is_begin (hd rest) \<Longrightarrow> filter_lines st rest = filter_lines line_filter_init rest"
  by (cases rest) (simp_all add: filter_lines_begin del: filter_lines.simps(2))

text \<open>
  C5: within one block, that is the lines \<open>blk\<close> after a line \<open>b\<close> that starts with \<open>BEGIN:V\<close>
  up to the next such line (or the end of the document), the filter keeps the first line of
  the group \<open>DURATION\<close>, \<open>DTEND\<close>, \<open>DUE\<close> and drops every later line of the group, and does the
  same with \<open>DTSTAMP\<close>; every other line stays. Whatever came before \<open>b\<close> has no influence on
  the block, and the lines after the block are filtered as a document of their own, so each
  sibling component keeps its own first occurrences.
\<close>

theorem filter_keeps_first_per_block:
  assumes "is_begin b" and "\<forall>l\<in>set blk. \<not> is_begin l" and "rest = [] \<or> is_begin (hd rest)"
  shows "filter_lines st (pre @ b # blk @ rest)
         = filter_lines st pre @ b # keep_firsts blk @ filter_lines line_filter_init rest"
proof -
  have "filter_lines st (pre @ b # blk @ rest)
        = filter_lines st pre @ b # filter_lines line_filter_init (blk @ rest)"
    using assms(1) by (simp add: filter_lines_append filter_lines_begin del: filter_lines.simps)
  also have "filter_lines line_filter_init (blk @ rest)
        = filter_lines line_filter_init blk @ filter_lines (run_filter line_filter_init blk) rest"
    by (rule filter_lines_append)
  also have "filter_lines line_filter_init blk = keep_firsts blk"
    using assms(2) by (simp add: filter_lines_block block_of_def keep_firsts_def line_filter_init_def)
  also have "filter_lines (run_filter line_filter_init blk) rest = filter_lines line_filter_init rest"
    using assms(3) by (rule filter_lines_reset)
  finally show ?thesis .
qed

theorem filter_keeps_first_per_block_witness:
  "is_begin ''BEGIN:VEVENT'' \<and>
   \<not> list_ex is_begin
     [''DTEND:1'', ''DUE:2'', ''DTSTAMP:1'', ''SUMMARY:x'', ''DTSTAMP;X=1:2'', ''DURATION;X=1:3''] \<and>
   is_begin (hd [''BEGIN:VTODO'', ''DUE:3'', ''DTSTAMP:3'', ''DTSTAMP:4'']) \<and>
   filter_lines line_filter_init
     ([''DTSTAMP:0'', ''DTSTAMP:9''] @ ''BEGIN:VEVENT'' #
      [''DTEND:1'', ''DUE:2'', ''DTSTAMP:1'', ''SUMMARY:x'', ''DTSTAMP;X=1:2'', ''DURATION;X=1:3''] @
      [''BEGIN:VTODO'', ''DUE:3'', ''DTSTAMP:3'', ''DTSTAMP:4''])
   = [''DTSTAMP:0'', ''BEGIN:VEVENT'', ''DTEND:1'', ''DTSTAMP:1'', ''SUMMARY:x'',
      ''BEGIN:VTODO'', ''DUE:3'', ''DTSTAMP:3'']"
proof -
  have b: "is_begin ''BEGIN:VEVENT''" by code_simp
  have blk: "\<forall>l\<in>set [''DTEND:1'', ''DUE:2'', ''DTSTAMP:1'', ''SUMMARY:x'', ''DTSTAMP;X=1:2'',
      ''DURATION;X=1:3'']. \<not> is_begin l" by code_simp
  have rest: "[''BEGIN:VTODO'', ''DUE:3'', ''DTSTAMP:3'', ''DTSTAMP:4''] = [] \<or>
    is_begin (hd [''BEGIN:VTODO'', ''DUE:3'', ''DTSTAMP:3'', ''DTSTAMP:4''])" by code_simp
  have pre: "filter_lines line_filter_init [''DTSTAMP:0'', ''DTSTAMP:9''] = [''DTSTAMP:0'']"
    by code_simp
  have kf: "keep_firsts [''DTEND:1'', ''DUE:2'', ''DTSTAMP:1'', ''SUMMARY:x'', ''DTSTAMP;X=1:2'',
      ''DURATION;X=1:3''] = [''DTEND:1'', ''DTSTAMP:1'', ''SUMMARY:x'']" by code_simp
  have r: "filter_lines line_filter_init [''BEGIN:VTODO'', ''DUE:3'', ''DTSTAMP:3'', ''DTSTAMP:4'']
     = [''BEGIN:VTODO'', ''DUE:3'', ''DTSTAMP:3'']" by code_simp
  show ?thesis
    using filter_keeps_first_per_block [OF b blk rest, of line_filter_init "[''DTSTAMP:0'', ''DTSTAMP:9'']"]
      b blk rest
    unfolding pre kf r by (simp add: list_ex_iff)
qed

subsection \<open>The trailing newline\<close>

lemma fixed2_lines: "fixed2 e = join_nl (filter_lines line_filter_init (fixed_lines e)) @ [NL]"
  by (simp add: fixed2_def fixed_lines_def)

lemma vcal_fix_fixed2: "vcal_fix e = fixed2 e"
  by (simp add: vcal_fix_def vcal_fix_counted_def Let_def)

lemma split_nl_nonempty [simp]: "split_nl s \<noteq> []"
  by (induction s) (auto split: list.splits)

lemma join_split_nl [simp]: "join_nl (split_nl s) = s"
proof (induction s)
  case Nil
  show ?case by simp
next
  case (Cons c cs)
  obtain l ls where sp: "split_nl cs = l # ls"
    by (cases "split_nl cs") auto
  show ?case
  proof (cases "c = NL")
    case True
    with Cons sp show ?thesis by simp
  next
    case False
    with Cons sp show ?thesis by (cases ls) auto
  qed
qed

lemma split_nl_no_newline: "l \<in> set (split_nl s) \<Longrightarrow> NL \<notin> set l"
  by (induction s arbitrary: l) (auto split: if_splits list.splits)

lemma split_join_nl:
  "ls \<noteq> [] \<Longrightarrow> \<forall>l\<in>set ls. NL \<notin> set l \<Longrightarrow> split_nl (join_nl ls) = ls"
proof (induction ls rule: join_nl.induct)
  case 1
  then show ?case by simp
next
  case (2 l)
  have "NL \<notin> set l \<Longrightarrow> split_nl l = [l]" for l
    by (induction l) auto
  with 2 show ?case by simp
next
  case (3 l k ls)
  have "NL \<notin> set l \<Longrightarrow> split_nl (l @ NL # r) = l # split_nl r" for l r
    by (induction l) auto
  with 3 show ?case by simp
qed

lemma filter_lines_subset: "set (filter_lines st ls) \<subseteq> set ls"
  by (induction ls arbitrary: st) (auto split: prod.splits bool.splits)

lemma filter_lines_idem: "filter_lines st (filter_lines st ls) = filter_lines st ls"
proof (induction ls arbitrary: st)
  case Nil
  show ?case by simp
next
  case (Cons l ls)
  obtain keep st' where c: "line_filter_call st l = (keep, st')"
    by (cases "line_filter_call st l")
  show ?case
  proof (cases keep)
    case True
    with c Cons show ?thesis by simp
  next
    case False
    with c have "st' = st"
      by (auto simp: line_filter_call_def split: if_splits)
    with False c Cons show ?thesis by simp
  qed
qed

lemma filter_lines_nonempty: "ls \<noteq> [] \<Longrightarrow> filter_lines line_filter_init ls \<noteq> []"
  by (cases ls) (auto simp: line_filter_call_def line_filter_init_def split: if_splits)

lemma last_join_nl:
  "ls \<noteq> [] \<Longrightarrow> last ls \<noteq> [] \<Longrightarrow> join_nl ls \<noteq> [] \<and> last (join_nl ls) = last (last ls)"
  by (induction ls rule: join_nl.induct) auto

lemma endswith_one: "endswith s [c] = (s \<noteq> [] \<and> last s = c)"
proof (cases s rule: rev_cases)
  case Nil
  then show ?thesis by (simp add: endswith_def)
next
  case (snoc ys y)
  then show ?thesis by (auto simp: endswith_def)
qed

lemma endswith_two_snoc: "endswith (s @ [c]) [a, b] = (b = c \<and> endswith s [a])"
proof (cases s rule: rev_cases)
  case Nil
  then show ?thesis by (simp add: endswith_def)
next
  case (snoc ys y)
  then show ?thesis by (auto simp: endswith_def)
qed

lemma rstrip_last: "rstrip s \<noteq> [] \<Longrightarrow> \<not> is_space (last (rstrip s))"
proof -
  assume a: "rstrip s \<noteq> []"
  then have "dropWhile is_space (rev s) \<noteq> []" by (simp add: rstrip_def)
  then have "\<not> is_space (hd (dropWhile is_space (rev s)))" by (rule hd_dropWhile)
  with a show ?thesis by (simp add: rstrip_def last_rev)
qed

lemma strip_last: "strip s \<noteq> [] \<Longrightarrow> \<not> is_space (last (strip s))"
  unfolding strip_def by (rule rstrip_last)

lemma last_split_nl: "s \<noteq> [] \<Longrightarrow> last s \<noteq> NL \<Longrightarrow> last (split_nl s) \<noteq> []"
proof (induction s)
  case Nil
  then show ?case by simp
next
  case (Cons c cs)
  then show ?case by (cases cs) (auto split: list.splits if_splits)
qed

lemma join_nl_ends_newline:
  "ls \<noteq> [] \<Longrightarrow> \<forall>l\<in>set ls. NL \<notin> set l \<Longrightarrow>
   (join_nl ls \<noteq> [] \<and> last (join_nl ls) = NL) \<longleftrightarrow> (1 < length ls \<and> last ls = [])"
proof (induction ls rule: join_nl.induct)
  case 1
  then show ?case by simp
next
  case (2 l)
  then show ?case by (cases l rule: rev_cases) auto
next
  case (3 l k ls)
  show ?case
  proof (cases ls)
    case Nil
    with 3 show ?thesis by (cases k rule: rev_cases) auto
  next
    case (Cons a as)
    with 3 have "(join_nl (k # ls) \<noteq> [] \<and> last (join_nl (k # ls)) = NL)
        \<longleftrightarrow> (1 < length (k # ls) \<and> last (k # ls) = [])" by simp
    moreover have "join_nl (k # ls) \<noteq> []" using Cons by simp
    ultimately show ?thesis using Cons by simp
  qed
qed

text \<open>
  C7, as the code has it: the output of \<open>fix\<close> always ends with a newline; it ends with two
  newlines exactly when the filter keeps more than one line and the last line it keeps is
  empty, and then the filter has dropped a line.
\<close>

theorem fix_trailing_newline:
  "endswith (vcal_fix e) [NL] \<and>
   (endswith (vcal_fix e) [NL, NL] \<longleftrightarrow>
      1 < length (filter_lines line_filter_init (fixed_lines e)) \<and>
      last (filter_lines line_filter_init (fixed_lines e)) = []) \<and>
   (endswith (vcal_fix e) [NL, NL] \<longrightarrow>
      filter_lines line_filter_init (fixed_lines e) \<noteq> fixed_lines e)"
proof -
  let ?kept = "filter_lines line_filter_init (fixed_lines e)"
  have out: "vcal_fix e = join_nl ?kept @ [NL]"
    by (simp add: vcal_fix_fixed2 fixed2_lines)
  have ne: "?kept \<noteq> []"
    by (rule filter_lines_nonempty) (simp add: fixed_lines_def)
  have nonl: "\<forall>l\<in>set ?kept. NL \<notin> set l"
    using filter_lines_subset [of line_filter_init "fixed_lines e"] split_nl_no_newline
    by (auto simp: fixed_lines_def)
  have two: "endswith (vcal_fix e) [NL, NL] \<longleftrightarrow> 1 < length ?kept \<and> last ?kept = []"
    unfolding out endswith_two_snoc endswith_one
    using join_nl_ends_newline [OF ne nonl] by simp
  have one: "endswith (vcal_fix e) [NL]" by (simp add: out endswith_one)
  have "?kept \<noteq> fixed_lines e" if "1 < length ?kept" "last ?kept = []"
  proof
    assume k: "?kept = fixed_lines e"
    let ?t = "strip (regex_fixups (canonical e))"
    show False
    proof (cases "?t = []")
      case True
      then have "fixed_lines e = [[]]" by (simp add: fixed_lines_def)
      with k that(1) show False by simp
    next
      case False
      then have "\<not> is_space (last ?t)" by (rule strip_last)
      then have "last ?t \<noteq> NL" by (auto simp: is_space_def)
      with False have "last (split_nl ?t) \<noteq> []" by (rule last_split_nl)
      with k that(2) show False by (simp add: fixed_lines_def)
    qed
  qed
  with two one show ?thesis by blast
qed

theorem fix_trailing_newline_witness:
  "endswith (vcal_fix ''BEGIN:VEVENT\<newline>DTSTAMP:1\<newline>\<newline>DTSTAMP:2\<newline>END:VEVENT'') [NL] \<and>
   \<not> endswith (vcal_fix ''BEGIN:VEVENT\<newline>DTSTAMP:1\<newline>\<newline>DTSTAMP:2\<newline>END:VEVENT'') [NL, NL] \<and>
   last (filter_lines line_filter_init
     (fixed_lines ''BEGIN:VEVENT\<newline>DTSTAMP:1\<newline>\<newline>DTSTAMP:2\<newline>END:VEVENT'')) = ''END:VEVENT'' \<and>
   endswith (vcal_fix ''DTSTAMP:1\<newline>\<newline>DTSTAMP:2'') [NL, NL] \<and>
   filter_lines line_filter_init (fixed_lines ''DTSTAMP:1\<newline>\<newline>DTSTAMP:2'') = [''DTSTAMP:1'', [] ] \<and>
   filter_lines line_filter_init (fixed_lines ''DTSTAMP:1\<newline>\<newline>DTSTAMP:2'')
     \<noteq> fixed_lines ''DTSTAMP:1\<newline>\<newline>DTSTAMP:2''"
proof -
  let ?a = "''BEGIN:VEVENT\<newline>DTSTAMP:1\<newline>\<newline>DTSTAMP:2\<newline>END:VEVENT''"
  let ?b = "''DTSTAMP:1\<newline>\<newline>DTSTAMP:2''"
  have la: "last (filter_lines line_filter_init (fixed_lines ?a)) = ''END:VEVENT''" by code_simp
  have kb: "filter_lines line_filter_init (fixed_lines ?b) = [''DTSTAMP:1'', [] ]" by code_simp
  from la have "last (filter_lines line_filter_init (fixed_lines ?a)) \<noteq> []" by simp
  with fix_trailing_newline [of ?a]
  have a: "endswith (vcal_fix ?a) [NL]" "\<not> endswith (vcal_fix ?a) [NL, NL]" by blast+
  from kb have "1 < length (filter_lines line_filter_init (fixed_lines ?b)) \<and>
      last (filter_lines line_filter_init (fixed_lines ?b)) = []" by simp
  with fix_trailing_newline [of ?b] have b: "endswith (vcal_fix ?b) [NL, NL]"
    "filter_lines line_filter_init (fixed_lines ?b) \<noteq> fixed_lines ?b" by blast+
  from a la b(1) kb b(2) show ?thesis by (intro conjI)
qed

text \<open>
  C7 as stated fails: \<open>strip\<close> comes before the filter, so when the filter drops the lines
  behind an empty line, the output ends with two newlines.
\<close>

theorem fix_two_trailing_newlines:
  "vcal_fix ''BEGIN:VEVENT\<newline>DTSTAMP:1\<newline>\<newline>DTSTAMP:2\<newline>''
     = ''BEGIN:VEVENT\<newline>DTSTAMP:1\<newline>\<newline>'' \<and>
   endswith (vcal_fix ''BEGIN:VEVENT\<newline>DTSTAMP:1\<newline>\<newline>DTSTAMP:2\<newline>'') [NL, NL]"
  by code_simp

subsection \<open>Idempotence\<close>

text \<open>
  C6 as stated fails: \<open>strip\<close> runs before the filter, so the lines that the filter drops at
  the end can leave a line that ends with a tab, or an empty line, as the last one; \<open>strip\<close>
  of the second pass removes that whitespace.
\<close>

theorem fix_not_idempotent:
  "vcal_fix (''BEGIN:VEVENT\<newline>DTSTAMP:1\<newline>SUMMARY:x'' @ [CHR 0x09] @ ''\<newline>DTSTAMP:2\<newline>'')
     = ''BEGIN:VEVENT\<newline>DTSTAMP:1\<newline>SUMMARY:x'' @ [CHR 0x09] @ ''\<newline>'' \<and>
   vcal_fix (vcal_fix (''BEGIN:VEVENT\<newline>DTSTAMP:1\<newline>SUMMARY:x'' @ [CHR 0x09] @ ''\<newline>DTSTAMP:2\<newline>''))
     = ''BEGIN:VEVENT\<newline>DTSTAMP:1\<newline>SUMMARY:x\<newline>'' \<and>
   vcal_fix (vcal_fix (''BEGIN:VEVENT\<newline>DTSTAMP:1\<newline>SUMMARY:x'' @ [CHR 0x09] @ ''\<newline>DTSTAMP:2\<newline>''))
     \<noteq> vcal_fix (''BEGIN:VEVENT\<newline>DTSTAMP:1\<newline>SUMMARY:x'' @ [CHR 0x09] @ ''\<newline>DTSTAMP:2\<newline>'') \<and>
   vcal_fix ''BEGIN:VEVENT\<newline>DTSTAMP:1\<newline>\<newline>DTSTAMP:2\<newline>'' = ''BEGIN:VEVENT\<newline>DTSTAMP:1\<newline>\<newline>'' \<and>
   vcal_fix (vcal_fix ''BEGIN:VEVENT\<newline>DTSTAMP:1\<newline>\<newline>DTSTAMP:2\<newline>'') = ''BEGIN:VEVENT\<newline>DTSTAMP:1\<newline>''"
  by code_simp

text \<open>
  The filter never drops a line of its own output, so a second pass changes nothing when the
  substitution rules and \<open>strip\<close> find nothing to change in the output of the first pass.
\<close>

lemma fix_idempotent_stable_output:
  assumes "regex_fixups (canonical (vcal_fix x)) = vcal_fix x"
    and "strip (vcal_fix x) @ [NL] = vcal_fix x"
  shows "vcal_fix (vcal_fix x) = vcal_fix x"
proof -
  let ?kept = "filter_lines line_filter_init (fixed_lines x)"
  have out: "vcal_fix x = join_nl ?kept @ [NL]"
    by (simp add: vcal_fix_fixed2 fixed2_lines)
  have ne: "?kept \<noteq> []"
    by (rule filter_lines_nonempty) (simp add: fixed_lines_def)
  have nonl: "\<forall>l\<in>set ?kept. NL \<notin> set l"
    using filter_lines_subset [of line_filter_init "fixed_lines x"] split_nl_no_newline
    by (auto simp: fixed_lines_def)
  from assms(2) out have "strip (vcal_fix x) = join_nl ?kept" by simp
  with assms(1) have "fixed_lines (vcal_fix x) = split_nl (join_nl ?kept)"
    by (simp add: fixed_lines_def)
  also have "\<dots> = ?kept" using ne nonl by (rule split_join_nl)
  finally have "filter_lines line_filter_init (fixed_lines (vcal_fix x)) = ?kept"
    by (simp add: filter_lines_idem)
  then have "vcal_fix (vcal_fix x) = join_nl ?kept @ [NL]"
    by (simp add: vcal_fix_fixed2 fixed2_lines)
  with out show ?thesis by simp
qed

text \<open>
  The substitution rules do not feed each other: after a rule no position matches its
  pattern, and the later rules, \<open>strip\<close> and the final newline bring no match back.
\<close>

lemma re_sub_nomatch: "nomatch m s \<Longrightarrow> re_sub m s = s"
  by (induction s) auto

lemma nomatch_append: "nomatch m (u @ v) \<Longrightarrow> nomatch m v"
  by (induction u) auto

lemma nomatch_drop: "nomatch m s \<Longrightarrow> nomatch m (drop k s)"
  by (metis append_take_drop_id nomatch_append)

lemma re_sub_prefix:
  assumes heads: "rep_heads m F"
  shows "set p \<inter> F = {} \<Longrightarrow> re_sub m cs = p @ t \<Longrightarrow> \<exists>t'. cs = p @ t'"
proof (induction p arbitrary: cs t)
  case Nil
  then show ?case by simp
next
  case (Cons x p)
  from Cons.prems(2) obtain c cs1 where cs: "cs = c # cs1"
    by (cases cs) auto
  show ?case
  proof (cases "m (c # cs1)")
    case None
    with Cons.prems(2) cs have "c = x" "re_sub m cs1 = p @ t" by auto
    moreover from Cons.prems(1) have "set p \<inter> F = {}" by auto
    ultimately show ?thesis using Cons.IH cs by fastforce
  next
    case (Some a)
    obtain rep n where a: "a = (rep, n)" by (cases a)
    with Some heads have "rep \<noteq> []" "hd rep \<in> F" unfolding rep_heads_def by blast+
    moreover from Some a Cons.prems(2) cs have "rep @ re_sub m (drop (n - 1) cs1) = x # p @ t"
      by simp
    ultimately have "x \<in> F" by (cases rep) auto
    with Cons.prems(1) show ?thesis by auto
  qed
qed

lemma match_after_re_sub:
  assumes heads: "rep_heads m F" and tail: "tail_free m' F" and none: "m' (c # cs) = None"
  shows "m' (c # re_sub m cs) = None"
proof (rule ccontr)
  assume "m' (c # re_sub m cs) \<noteq> None"
  then obtain r where r: "m' (c # re_sub m cs) = Some r" by auto
  with tail obtain a p t where
    s: "c # re_sub m cs = a # p @ t" and p: "set p \<inter> F = {}"
    and d: "\<forall>t'. m' (a # p @ t') = Some r" unfolding tail_free_def by blast
  from s have ac: "a = c" and "re_sub m cs = p @ t" by auto
  with re_sub_prefix [OF heads p] obtain t' where "cs = p @ t'" by blast
  with d ac have "m' (c # cs) = Some r" by simp
  with none show False by simp
qed

lemma nomatch_preserved:
  assumes heads: "rep_heads m F" and tail: "tail_free m' F" and clean: "rep_clean m' m"
  shows "nomatch m' s \<Longrightarrow> nomatch m' (re_sub m s)"
proof (induction s rule: length_induct)
  case (1 s)
  show ?case
  proof (cases s)
    case Nil
    then show ?thesis by simp
  next
    case (Cons c cs)
    with 1 have none: "m' (c # cs) = None" and ncs: "nomatch m' cs" by simp_all
    show ?thesis
    proof (cases "m (c # cs)")
      case None
      from 1 Cons ncs have "nomatch m' (re_sub m cs)" by simp
      moreover from match_after_re_sub [OF heads tail none] have "m' (c # re_sub m cs) = None" .
      ultimately show ?thesis using None Cons by simp
    next
      case (Some a)
      obtain rep n where a: "a = (rep, n)" by (cases a)
      have "length (drop (n - 1) cs) < length s" using Cons by simp
      moreover have "nomatch m' (drop (n - 1) cs)" using ncs by (rule nomatch_drop)
      ultimately have "nomatch m' (re_sub m (drop (n - 1) cs))" using 1 by blast
      with clean Some a have "nomatch m' (rep @ re_sub m (drop (n - 1) cs))"
        unfolding rep_clean_def by blast
      with Some a Cons show ?thesis by simp
    qed
  qed
qed

lemma nomatch_own:
  assumes heads: "rep_heads m F" and tail: "tail_free m F" and clean: "rep_clean m m"
  shows "nomatch m (re_sub m s)"
proof (induction s rule: length_induct)
  case (1 s)
  show ?case
  proof (cases s)
    case Nil
    then show ?thesis by simp
  next
    case (Cons c cs)
    show ?thesis
    proof (cases "m (c # cs)")
      case None
      from 1 Cons have "nomatch m (re_sub m cs)" by simp
      moreover from match_after_re_sub [OF heads tail None] have "m (c # re_sub m cs) = None" .
      ultimately show ?thesis using None Cons by simp
    next
      case (Some a)
      obtain rep n where a: "a = (rep, n)" by (cases a)
      have "length (drop (n - 1) cs) < length s" using Cons by simp
      then have "nomatch m (re_sub m (drop (n - 1) cs))" using 1 by blast
      with clean Some a have "nomatch m (rep @ re_sub m (drop (n - 1) cs))"
        unfolding rep_clean_def by blast
      with Some a Cons show ?thesis by simp
    qed
  qed
qed

lemma startswith_append: "startswith s p = (\<exists>t. s = p @ t)"
  unfolding startswith_def by (metis append_eq_conv_conj append_take_drop_id)

lemma space_not_digit: "is_space w \<Longrightarrow> \<not> is_digit w"
  by (auto simp: is_space_def is_digit_def)

lemma nomatch_skip:
  "\<forall>x\<in>set u. \<forall>v. m (x # v) = None \<Longrightarrow> nomatch m t \<Longrightarrow> nomatch m (u @ t)"
  by (induction u) auto

subsection \<open>The four patterns\<close>

lemma match_crlf_Some:
  "match_crlf s = Some r \<longleftrightarrow> (\<exists>t. s = CR # NL # t) \<and> r = ([NL], 2)"
  by (auto simp: match_crlf_def startswith_Cons split: list.splits)

lemma match_created_Some:
  "match_created s = Some r \<longleftrightarrow>
     (\<exists>t. s = ''CREATED:00001231T000000Z'' @ t) \<and> r = (''CREATED:19700101T000000Z'', 24)"
  unfolding match_created_def startswith_append by auto

lemma match_completed_Some:
  "match_completed s = Some r \<longleftrightarrow>
     (\<exists>ds w t. s = ''COMPLETED:'' @ ds @ w # t \<and> ds \<noteq> [] \<and> (\<forall>d\<in>set ds. is_digit d) \<and>
        is_space w \<and> r = (''COMPLETED:'' @ ds @ ''T120000Z'', 10 + length ds + 1))"
proof
  assume a: "match_completed s = Some r"
  then have sw: "startswith s ''COMPLETED:''"
    by (auto simp: match_completed_def split: if_splits)
  then obtain r0 where s: "s = ''COMPLETED:'' @ r0" unfolding startswith_append by blast
  then have d: "drop 10 s = r0" by simp
  from a sw d obtain w t where dw: "dropWhile is_digit r0 = w # t"
    and ne: "takeWhile is_digit r0 \<noteq> []" and w: "is_space w"
    and r: "r = (''COMPLETED:'' @ takeWhile is_digit r0 @ ''T120000Z'',
                 10 + length (takeWhile is_digit r0) + 1)"
    by (auto simp: match_completed_def Let_def split: if_splits list.splits)
  have "r0 = takeWhile is_digit r0 @ w # t"
    using dw by (metis takeWhile_dropWhile_id)
  moreover have "\<forall>d\<in>set (takeWhile is_digit r0). is_digit d"
    by (auto dest: set_takeWhileD)
  ultimately show "\<exists>ds w t. s = ''COMPLETED:'' @ ds @ w # t \<and> ds \<noteq> [] \<and>
      (\<forall>d\<in>set ds. is_digit d) \<and> is_space w \<and>
      r = (''COMPLETED:'' @ ds @ ''T120000Z'', 10 + length ds + 1)"
    using s ne w r by blast
next
  assume "\<exists>ds w t. s = ''COMPLETED:'' @ ds @ w # t \<and> ds \<noteq> [] \<and> (\<forall>d\<in>set ds. is_digit d) \<and>
        is_space w \<and> r = (''COMPLETED:'' @ ds @ ''T120000Z'', 10 + length ds + 1)"
  then obtain ds w t where s: "s = ''COMPLETED:'' @ ds @ w # t" and ne: "ds \<noteq> []"
    and dg: "\<forall>d\<in>set ds. is_digit d" and w: "is_space w"
    and r: "r = (''COMPLETED:'' @ ds @ ''T120000Z'', 10 + length ds + 1)" by blast
  from w have nd: "\<not> is_digit w" by (rule space_not_digit)
  have sw: "startswith s ''COMPLETED:''" unfolding startswith_append using s by blast
  have d: "drop 10 s = ds @ w # t" using s by simp
  have tw: "takeWhile is_digit (ds @ w # t) = ds"
    using dg nd by (simp add: takeWhile_append2)
  have dw: "dropWhile is_digit (ds @ w # t) = w # t"
    using dg nd by (simp add: dropWhile_append2)
  show "match_completed s = Some r"
    unfolding match_completed_def Let_def d tw dw using sw ne w r by simp
qed

lemma match_quotes_Some:
  "match_quotes s = Some r \<longleftrightarrow>
     (\<exists>bs t. s = bs @ SQ # DQ # t \<and> bs \<noteq> [] \<and> (\<forall>b\<in>set bs. b = BSL) \<and>
        r = ([SQ, DQ], length bs + 2))"
proof
  assume a: "match_quotes s = Some r"
  let ?bs = "takeWhile (\<lambda>c. c = BSL) s"
  from a have ne: "?bs \<noteq> []" and sw: "startswith (dropWhile (\<lambda>c. c = BSL) s) [SQ, DQ]"
    and r: "r = ([SQ, DQ], length ?bs + 2)"
    by (auto simp: match_quotes_def Let_def split: if_splits)
  from sw obtain t where "dropWhile (\<lambda>c. c = BSL) s = [SQ, DQ] @ t"
    unfolding startswith_append by blast
  then have "s = ?bs @ SQ # DQ # t" by (metis append_Cons append_Nil takeWhile_dropWhile_id)
  moreover have "\<forall>b\<in>set ?bs. b = BSL" by (auto dest: set_takeWhileD)
  ultimately show "\<exists>bs t. s = bs @ SQ # DQ # t \<and> bs \<noteq> [] \<and> (\<forall>b\<in>set bs. b = BSL) \<and>
        r = ([SQ, DQ], length bs + 2)" using ne r by blast
next
  assume "\<exists>bs t. s = bs @ SQ # DQ # t \<and> bs \<noteq> [] \<and> (\<forall>b\<in>set bs. b = BSL) \<and>
        r = ([SQ, DQ], length bs + 2)"
  then obtain bs t where s: "s = bs @ SQ # DQ # t" and ne: "bs \<noteq> []"
    and b: "\<forall>b\<in>set bs. b = BSL" and r: "r = ([SQ, DQ], length bs + 2)" by blast
  have tw: "takeWhile (\<lambda>c. c = BSL) s = bs" using s b by (simp add: takeWhile_append2)
  have dw: "dropWhile (\<lambda>c. c = BSL) s = SQ # DQ # t" using s b by (simp add: dropWhile_append2)
  show "match_quotes s = Some r"
    unfolding match_quotes_def Let_def tw dw using ne r by (simp add: startswith_Cons)
qed

lemma match_crlf_start: "c \<noteq> CR \<Longrightarrow> match_crlf (c # v) = None"
  by (simp add: match_crlf_def startswith_Cons)

lemma match_created_start: "c \<noteq> CHR ''C'' \<Longrightarrow> match_created (c # v) = None"
  by (simp add: match_created_def startswith_Cons)

lemma match_completed_start: "c \<noteq> CHR ''C'' \<Longrightarrow> match_completed (c # v) = None"
  by (simp add: match_completed_def startswith_Cons)

lemma match_quotes_start: "c \<noteq> BSL \<Longrightarrow> match_quotes (c # v) = None"
  by (simp add: match_quotes_def)

subsection \<open>Heads of replacements, tails of matches\<close>

lemma heads_completed: "rep_heads match_completed FH"
  unfolding rep_heads_def
proof (intro allI impI)
  fix s rep n assume "match_completed s = Some (rep, n)"
  then obtain ds where "rep = ''COMPLETED:'' @ ds @ ''T120000Z''"
    unfolding match_completed_Some by blast
  then show "rep \<noteq> [] \<and> hd rep \<in> FH" by simp
qed

lemma heads_created: "rep_heads match_created FH"
  unfolding rep_heads_def
proof (intro allI impI)
  fix s rep n assume "match_created s = Some (rep, n)"
  then have "rep = ''CREATED:19700101T000000Z''"
    unfolding match_created_Some by blast
  then show "rep \<noteq> [] \<and> hd rep \<in> FH" by simp
qed

lemma heads_quotes: "rep_heads match_quotes FH"
  unfolding rep_heads_def
proof (intro allI impI)
  fix s rep n assume "match_quotes s = Some (rep, n)"
  then have "rep = [SQ, DQ]"
    unfolding match_quotes_Some by blast
  then show "rep \<noteq> [] \<and> hd rep \<in> FH" by simp
qed

lemma tail_crlf: "tail_free match_crlf FH"
  unfolding tail_free_def
proof (intro allI impI)
  fix s r assume "match_crlf s = Some r"
  then obtain t where s: "s = CR # [NL] @ t" and r: "r = ([NL], 2)"
    unfolding match_crlf_Some by auto
  have "\<forall>t'. match_crlf (CR # [NL] @ t') = Some r" unfolding match_crlf_Some using r by simp
  moreover have "set [NL] \<inter> FH = {}" by simp
  ultimately show "\<exists>a p t. s = a # p @ t \<and> set p \<inter> FH = {} \<and> (\<forall>t'. match_crlf (a # p @ t') = Some r)"
    using s by blast
qed

lemma tail_created: "tail_free match_created FH"
  unfolding tail_free_def
proof (intro allI impI)
  fix s r assume "match_created s = Some r"
  then obtain t where s: "s = CHR ''C'' # ''REATED:00001231T000000Z'' @ t"
    and r: "r = (''CREATED:19700101T000000Z'', 24)"
    unfolding match_created_Some by auto
  have "\<forall>t'. match_created (CHR ''C'' # ''REATED:00001231T000000Z'' @ t') = Some r"
    unfolding match_created_Some using r by simp
  moreover have "set ''REATED:00001231T000000Z'' \<inter> FH = {}" by simp
  ultimately show "\<exists>a p t. s = a # p @ t \<and> set p \<inter> FH = {} \<and>
      (\<forall>t'. match_created (a # p @ t') = Some r)"
    using s by blast
qed

lemma match_completed_intro:
  assumes "ds \<noteq> []" and "\<forall>d\<in>set ds. is_digit d" and "is_space w"
  shows "match_completed (''COMPLETED:'' @ ds @ w # t)
         = Some (''COMPLETED:'' @ ds @ ''T120000Z'', 10 + length ds + 1)"
  unfolding match_completed_Some using assms by (intro exI [of _ ds] exI [of _ w] exI [of _ t]) simp

lemma digit_not_head: "is_digit d \<Longrightarrow> d \<notin> FH"
  by (auto simp: is_digit_def)

lemma space_not_head: "is_space w \<Longrightarrow> w \<notin> FH"
  by (auto simp: is_space_def)

lemma tail_completed: "tail_free match_completed FH"
  unfolding tail_free_def
proof (intro allI impI)
  fix s r assume "match_completed s = Some r"
  then obtain ds w t where s: "s = ''COMPLETED:'' @ ds @ w # t" and ne: "ds \<noteq> []"
    and dg: "\<forall>d\<in>set ds. is_digit d" and w: "is_space w"
    and r: "r = (''COMPLETED:'' @ ds @ ''T120000Z'', 10 + length ds + 1)"
    unfolding match_completed_Some by blast
  let ?p = "''OMPLETED:'' @ ds @ [w]"
  have s': "s = CHR ''C'' # ?p @ t" using s by simp
  have "match_completed (CHR ''C'' # ?p @ t') = Some r" for t'
    using match_completed_intro [OF ne dg w, of t'] r by simp
  moreover have "set ds \<inter> FH = {}" using dg digit_not_head by blast
  then have "set ?p \<inter> FH = {}"
    using space_not_head [OF w] by auto
  ultimately show "\<exists>a p t. s = a # p @ t \<and> set p \<inter> FH = {} \<and>
      (\<forall>t'. match_completed (a # p @ t') = Some r)"
    using s' by blast
qed

subsection \<open>Replacements hold no match\<close>

lemma digit_not_CR: "is_digit d \<Longrightarrow> d \<noteq> CR"
  by (auto simp: is_digit_def)

lemma digit_not_BSL: "is_digit d \<Longrightarrow> d \<noteq> BSL"
  by (auto simp: is_digit_def)

lemma digit_not_C: "is_digit d \<Longrightarrow> d \<noteq> CHR ''C''"
  by (auto simp: is_digit_def)

lemma completed_rep:
  assumes "match_completed s = Some (rep, n)"
  obtains ds where "rep = ''COMPLETED:'' @ ds @ ''T120000Z''" "ds \<noteq> []" "\<forall>d\<in>set ds. is_digit d"
  using assms unfolding match_completed_Some by blast

lemma created_rep: "match_created s = Some (rep, n) \<Longrightarrow> rep = ''CREATED:19700101T000000Z''"
  unfolding match_created_Some by blast

lemma quotes_rep: "match_quotes s = Some (rep, n) \<Longrightarrow> rep = [SQ, DQ]"
  unfolding match_quotes_Some by blast

lemma clean_crlf_completed: "rep_clean match_crlf match_completed"
  unfolding rep_clean_def
proof (intro allI impI)
  fix s rep n t assume m: "match_completed s = Some (rep, n)" and t: "nomatch match_crlf t"
  from m obtain ds where rep: "rep = ''COMPLETED:'' @ ds @ ''T120000Z''"
    and dg: "\<forall>d\<in>set ds. is_digit d" by (rule completed_rep)
  have "\<forall>x\<in>set rep. x \<noteq> CR" unfolding rep using dg digit_not_CR by auto
  then have "\<forall>x\<in>set rep. \<forall>v. match_crlf (x # v) = None" by (simp add: match_crlf_start)
  then show "nomatch match_crlf (rep @ t)" using t by (rule nomatch_skip)
qed

lemma clean_quotes_completed: "rep_clean match_quotes match_completed"
  unfolding rep_clean_def
proof (intro allI impI)
  fix s rep n t assume m: "match_completed s = Some (rep, n)" and t: "nomatch match_quotes t"
  from m obtain ds where rep: "rep = ''COMPLETED:'' @ ds @ ''T120000Z''"
    and dg: "\<forall>d\<in>set ds. is_digit d" by (rule completed_rep)
  have "\<forall>x\<in>set rep. x \<noteq> BSL" unfolding rep using dg digit_not_BSL by auto
  then have "\<forall>x\<in>set rep. \<forall>v. match_quotes (x # v) = None" by (simp add: match_quotes_start)
  then show "nomatch match_quotes (rep @ t)" using t by (rule nomatch_skip)
qed

lemma completed_rep_no_match:
  assumes dg: "\<forall>d\<in>set ds. is_digit d"
  shows "match_completed (''COMPLETED:'' @ ds @ ''T120000Z'' @ t) = None"
proof -
  have nd: "\<not> is_digit (CHR ''T'')" by (simp add: is_digit_def)
  have d: "drop 10 (''COMPLETED:'' @ ds @ ''T120000Z'' @ t) = ds @ CHR ''T'' # ''120000Z'' @ t"
    by simp
  have dw: "dropWhile is_digit (ds @ CHR ''T'' # ''120000Z'' @ t) = CHR ''T'' # ''120000Z'' @ t"
    using dg nd by (simp add: dropWhile_append2)
  have "\<not> is_space (CHR ''T'')" by (simp add: is_space_def)
  then show ?thesis unfolding match_completed_def Let_def d dw by simp
qed

lemma clean_completed_completed: "rep_clean match_completed match_completed"
  unfolding rep_clean_def
proof (intro allI impI)
  fix s rep n t assume m: "match_completed s = Some (rep, n)" and t: "nomatch match_completed t"
  from m obtain ds where rep: "rep = ''COMPLETED:'' @ ds @ ''T120000Z''"
    and dg: "\<forall>d\<in>set ds. is_digit d" by (rule completed_rep)
  let ?u = "''OMPLETED:'' @ ds @ ''T120000Z''"
  have "\<forall>x\<in>set ?u. x \<noteq> CHR ''C''" using dg digit_not_C by auto
  then have "\<forall>x\<in>set ?u. \<forall>v. match_completed (x # v) = None"
    by (simp add: match_completed_start)
  then have "nomatch match_completed (?u @ t)" using t by (rule nomatch_skip)
  moreover have "match_completed (''COMPLETED:'' @ ds @ ''T120000Z'' @ t) = None"
    using dg by (rule completed_rep_no_match)
  ultimately show "nomatch match_completed (rep @ t)" unfolding rep by simp
qed

lemma clean_created_completed: "rep_clean match_created match_completed"
  unfolding rep_clean_def
proof (intro allI impI)
  fix s rep n t assume m: "match_completed s = Some (rep, n)" and t: "nomatch match_created t"
  from m obtain ds where rep: "rep = ''COMPLETED:'' @ ds @ ''T120000Z''"
    and dg: "\<forall>d\<in>set ds. is_digit d" by (rule completed_rep)
  let ?u = "''OMPLETED:'' @ ds @ ''T120000Z''"
  have "\<forall>x\<in>set ?u. x \<noteq> CHR ''C''" using dg digit_not_C by auto
  then have "\<forall>x\<in>set ?u. \<forall>v. match_created (x # v) = None"
    by (simp add: match_created_start)
  then have "nomatch match_created (?u @ t)" using t by (rule nomatch_skip)
  moreover have "match_created (CHR ''C'' # ?u @ t) = None"
    by (simp add: match_created_def startswith_Cons)
  ultimately show "nomatch match_created (rep @ t)" unfolding rep by simp
qed

lemma clean_crlf_created: "rep_clean match_crlf match_created"
  unfolding rep_clean_def
proof (intro allI impI)
  fix s rep n t assume m: "match_created s = Some (rep, n)" and t: "nomatch match_crlf t"
  have "\<forall>x\<in>set ''CREATED:19700101T000000Z''. \<forall>v. match_crlf (x # v) = None"
    by (simp add: match_crlf_start)
  then show "nomatch match_crlf (rep @ t)" unfolding created_rep [OF m] using t by (rule nomatch_skip)
qed

lemma clean_quotes_created: "rep_clean match_quotes match_created"
  unfolding rep_clean_def
proof (intro allI impI)
  fix s rep n t assume m: "match_created s = Some (rep, n)" and t: "nomatch match_quotes t"
  have "\<forall>x\<in>set ''CREATED:19700101T000000Z''. \<forall>v. match_quotes (x # v) = None"
    by (simp add: match_quotes_start)
  then show "nomatch match_quotes (rep @ t)" unfolding created_rep [OF m] using t by (rule nomatch_skip)
qed

lemma clean_completed_created: "rep_clean match_completed match_created"
  unfolding rep_clean_def
proof (intro allI impI)
  fix s rep n t assume m: "match_created s = Some (rep, n)" and t: "nomatch match_completed t"
  have "\<forall>x\<in>set ''REATED:19700101T000000Z''. \<forall>v. match_completed (x # v) = None"
    by (simp add: match_completed_start)
  then have "nomatch match_completed (''REATED:19700101T000000Z'' @ t)" using t by (rule nomatch_skip)
  moreover have "match_completed (CHR ''C'' # ''REATED:19700101T000000Z'' @ t) = None"
    by (simp add: match_completed_def startswith_Cons)
  ultimately show "nomatch match_completed (rep @ t)" unfolding created_rep [OF m] by simp
qed

lemma clean_created_created: "rep_clean match_created match_created"
  unfolding rep_clean_def
proof (intro allI impI)
  fix s rep n t assume m: "match_created s = Some (rep, n)" and t: "nomatch match_created t"
  have "\<forall>x\<in>set ''REATED:19700101T000000Z''. \<forall>v. match_created (x # v) = None"
    by (simp add: match_created_start)
  then have "nomatch match_created (''REATED:19700101T000000Z'' @ t)" using t by (rule nomatch_skip)
  moreover have "match_created (CHR ''C'' # ''REATED:19700101T000000Z'' @ t) = None"
    by (simp add: match_created_def startswith_Cons)
  ultimately show "nomatch match_created (rep @ t)" unfolding created_rep [OF m] by simp
qed

lemma clean_any_quotes:
  assumes "\<forall>v. m' (SQ # v) = None" and "\<forall>v. m' (DQ # v) = None"
  shows "rep_clean m' match_quotes"
  unfolding rep_clean_def
proof (intro allI impI)
  fix s rep n t assume m: "match_quotes s = Some (rep, n)" and t: "nomatch m' t"
  from assms have "\<forall>x\<in>set [SQ, DQ]. \<forall>v. m' (x # v) = None" by simp
  then show "nomatch m' (rep @ t)" unfolding quotes_rep [OF m] using t by (rule nomatch_skip)
qed

lemma clean_crlf_quotes: "rep_clean match_crlf match_quotes"
  by (rule clean_any_quotes) (simp_all add: match_crlf_start)

lemma clean_completed_quotes: "rep_clean match_completed match_quotes"
  by (rule clean_any_quotes) (simp_all add: match_completed_start)

lemma clean_created_quotes: "rep_clean match_created match_quotes"
  by (rule clean_any_quotes) (simp_all add: match_created_start)

lemma clean_quotes_quotes: "rep_clean match_quotes match_quotes"
  by (rule clean_any_quotes) (simp_all add: match_quotes_start)

subsection \<open>Rule 3 leaves no match of its own\<close>

lemma match_quotes_bsl_bsl:
  "match_quotes (BSL # BSL # s) = None \<longleftrightarrow> match_quotes (BSL # s) = None"
  by (simp add: match_quotes_def)

lemma match_quotes_bsl_other:
  "d \<noteq> BSL \<Longrightarrow> match_quotes (BSL # d # s) = None \<longleftrightarrow> \<not> startswith (d # s) [SQ, DQ]"
  by (simp add: match_quotes_def)

lemma heads_quotes_SQ: "rep_heads match_quotes {SQ}"
  unfolding rep_heads_def
proof (intro allI impI)
  fix s rep n assume "match_quotes s = Some (rep, n)"
  then have "rep = [SQ, DQ]" by (rule quotes_rep)
  then show "rep \<noteq> [] \<and> hd rep \<in> {SQ}" by simp
qed

lemma re_sub_quotes_DQ:
  assumes "startswith (re_sub match_quotes s) [DQ]"
  shows "startswith s [DQ]"
proof -
  from assms obtain t where t: "re_sub match_quotes s = [DQ] @ t"
    unfolding startswith_append by blast
  have d: "set [DQ] \<inter> {SQ} = {}" by simp
  have "\<exists>t'. s = [DQ] @ t'"
    by (rule re_sub_prefix [OF heads_quotes_SQ d t])
  then show ?thesis unfolding startswith_append .
qed

lemma match_quotes_after:
  "match_quotes (c # cs) = None \<Longrightarrow> match_quotes (c # re_sub match_quotes cs) = None"
proof (induction cs arbitrary: c)
  case Nil
  then show ?case by simp
next
  case (Cons d ds)
  show ?case
  proof (cases "c = BSL")
    case False
    then show ?thesis by (rule match_quotes_start)
  next
    case True
    show ?thesis
    proof (cases "d = BSL")
      case dB: True
      from Cons.prems True dB have n: "match_quotes (BSL # ds) = None"
        by (simp add: match_quotes_bsl_bsl)
      then have "match_quotes (BSL # re_sub match_quotes ds) = None" by (rule Cons.IH)
      then show ?thesis using True dB n by (simp add: match_quotes_bsl_bsl)
    next
      case dN: False
      then have n: "match_quotes (d # ds) = None" by (rule match_quotes_start)
      from Cons.prems True dN have ns: "\<not> startswith (d # ds) [SQ, DQ]"
        by (simp add: match_quotes_bsl_other)
      have "\<not> startswith (d # re_sub match_quotes ds) [SQ, DQ]"
      proof
        assume a: "startswith (d # re_sub match_quotes ds) [SQ, DQ]"
        then have "d = SQ" "startswith (re_sub match_quotes ds) [DQ]"
          by (simp_all add: startswith_Cons)
        then have "d = SQ" "startswith ds [DQ]" using re_sub_quotes_DQ by blast+
        then have "startswith (d # ds) [SQ, DQ]" by (simp add: startswith_Cons)
        with ns show False by simp
      qed
      then show ?thesis using True dN n by (simp add: match_quotes_bsl_other)
    qed
  qed
qed

lemma nomatch_quotes_own: "nomatch match_quotes (re_sub match_quotes s)"
proof (induction s rule: length_induct)
  case (1 s)
  show ?case
  proof (cases s)
    case Nil
    then show ?thesis by simp
  next
    case (Cons c cs)
    show ?thesis
    proof (cases "match_quotes (c # cs)")
      case None
      from 1 Cons have "nomatch match_quotes (re_sub match_quotes cs)" by simp
      moreover from None have "match_quotes (c # re_sub match_quotes cs) = None"
        by (rule match_quotes_after)
      ultimately show ?thesis using None Cons by simp
    next
      case (Some a)
      obtain rep n where a: "a = (rep, n)" by (cases a)
      have "length (drop (n - 1) cs) < length s" using Cons by simp
      then have "nomatch match_quotes (re_sub match_quotes (drop (n - 1) cs))" using 1 by blast
      with clean_quotes_quotes Some a
      have "nomatch match_quotes (rep @ re_sub match_quotes (drop (n - 1) cs))"
        unfolding rep_clean_def by blast
      with Some a Cons show ?thesis by simp
    qed
  qed
qed

subsection \<open>After the first three rules\<close>

lemma three_rules_completed: "nomatch match_completed (three_rules s)"
proof -
  have "nomatch match_completed (fix_completed s)"
    unfolding fix_completed_def
    by (rule nomatch_own [OF heads_completed tail_completed clean_completed_completed])
  then have "nomatch match_completed (fix_created (fix_completed s))"
    unfolding fix_created_def
    by (rule nomatch_preserved [OF heads_created tail_completed clean_completed_created])
  then show ?thesis
    unfolding three_rules_def fix_quotes_def
    by (rule nomatch_preserved [OF heads_quotes tail_completed clean_completed_quotes])
qed

lemma three_rules_created: "nomatch match_created (three_rules s)"
proof -
  have "nomatch match_created (fix_created (fix_completed s))"
    unfolding fix_created_def
    by (rule nomatch_own [OF heads_created tail_created clean_created_created])
  then show ?thesis
    unfolding three_rules_def fix_quotes_def
    by (rule nomatch_preserved [OF heads_quotes tail_created clean_created_quotes])
qed

lemma three_rules_quotes: "nomatch match_quotes (three_rules s)"
  unfolding three_rules_def fix_quotes_def by (rule nomatch_quotes_own)

lemma three_rules_crlf:
  assumes "nomatch match_crlf s"
  shows "nomatch match_crlf (three_rules s)"
proof -
  from assms have "nomatch match_crlf (fix_completed s)"
    unfolding fix_completed_def
    by (rule nomatch_preserved [OF heads_completed tail_crlf clean_crlf_completed])
  then have "nomatch match_crlf (fix_created (fix_completed s))"
    unfolding fix_created_def
    by (rule nomatch_preserved [OF heads_created tail_crlf clean_crlf_created])
  then show ?thesis
    unfolding three_rules_def fix_quotes_def
    by (rule nomatch_preserved [OF heads_quotes tail_crlf clean_crlf_quotes])
qed

subsection \<open>The last character\<close>

lemma last_re_sub:
  assumes m: "\<forall>s rep n. m s = Some (rep, n) \<longrightarrow>
      1 \<le> n \<and> n \<le> length s \<and> rep \<noteq> [] \<and> (last rep = s ! (n - 1) \<or> last rep = CHR ''Z'')"
  shows "s \<noteq> [] \<Longrightarrow>
     re_sub m s \<noteq> [] \<and> (last (re_sub m s) = last s \<or> last (re_sub m s) = CHR ''Z'')"
proof (induction s rule: length_induct)
  case (1 s)
  from 1(2) obtain c cs where s: "s = c # cs" by (cases s) auto
  show ?case
  proof (cases "m (c # cs)")
    case None
    show ?thesis
    proof (cases "cs = []")
      case True
      with None s show ?thesis by simp
    next
      case False
      with 1(1) s have "re_sub m cs \<noteq> [] \<and>
          (last (re_sub m cs) = last cs \<or> last (re_sub m cs) = CHR ''Z'')" by simp
      with None s False show ?thesis by simp
    qed
  next
    case (Some a)
    obtain rep n where a: "a = (rep, n)" by (cases a)
    with Some m have n1: "1 \<le> n" and n2: "n \<le> length (c # cs)" and rne: "rep \<noteq> []"
      and lr: "last rep = (c # cs) ! (n - 1) \<or> last rep = CHR ''Z''" by blast+
    let ?r = "drop (n - 1) cs"
    have out: "re_sub m s = rep @ re_sub m ?r" using Some a s by simp
    show ?thesis
    proof (cases "?r = []")
      case True
      then have "n - 1 = length cs" using n2 by simp
      then have "(c # cs) ! (n - 1) = last (c # cs)"
        by (metis last_conv_nth length_Cons diff_Suc_1 list.distinct(1))
      with lr True out rne s show ?thesis by simp
    next
      case False
      have "length ?r < length s" using s by simp
      with 1(1) False have "re_sub m ?r \<noteq> [] \<and>
          (last (re_sub m ?r) = last ?r \<or> last (re_sub m ?r) = CHR ''Z'')" by blast
      moreover have "last ?r = last cs" using False by (simp add: last_drop)
      moreover have "cs \<noteq> []" using False by auto
      then have "last cs = last s" using s by simp
      ultimately show ?thesis using out by simp
    qed
  qed
qed

lemma last_completed_ok:
  "\<forall>s rep n. match_completed s = Some (rep, n) \<longrightarrow>
      1 \<le> n \<and> n \<le> length s \<and> rep \<noteq> [] \<and> (last rep = s ! (n - 1) \<or> last rep = CHR ''Z'')"
proof (intro allI impI)
  fix s rep n assume "match_completed s = Some (rep, n)"
  then obtain ds w t where s: "s = ''COMPLETED:'' @ ds @ w # t"
    and r: "rep = ''COMPLETED:'' @ ds @ ''T120000Z''" and n: "n = 10 + length ds + 1"
    unfolding match_completed_Some by blast
  have "length s = 10 + length ds + 1 + length t" unfolding s by simp
  then have "1 \<le> n" "n \<le> length s" using n by simp_all
  moreover have "rep \<noteq> []" "last rep = CHR ''Z''" unfolding r by simp_all
  ultimately show "1 \<le> n \<and> n \<le> length s \<and> rep \<noteq> [] \<and>
      (last rep = s ! (n - 1) \<or> last rep = CHR ''Z'')" by blast
qed

lemma last_created_ok:
  "\<forall>s rep n. match_created s = Some (rep, n) \<longrightarrow>
      1 \<le> n \<and> n \<le> length s \<and> rep \<noteq> [] \<and> (last rep = s ! (n - 1) \<or> last rep = CHR ''Z'')"
proof (intro allI impI)
  fix s rep n assume "match_created s = Some (rep, n)"
  then obtain t where s: "s = ''CREATED:00001231T000000Z'' @ t"
    and r: "rep = ''CREATED:19700101T000000Z''" and n: "n = 24"
    unfolding match_created_Some by blast
  have "length s = 24 + length t" unfolding s by simp
  then have "1 \<le> n" "n \<le> length s" using n by simp_all
  moreover have "rep \<noteq> []" "last rep = CHR ''Z''" unfolding r by simp_all
  ultimately show "1 \<le> n \<and> n \<le> length s \<and> rep \<noteq> [] \<and>
      (last rep = s ! (n - 1) \<or> last rep = CHR ''Z'')" by blast
qed

lemma last_quotes_ok:
  "\<forall>s rep n. match_quotes s = Some (rep, n) \<longrightarrow>
      1 \<le> n \<and> n \<le> length s \<and> rep \<noteq> [] \<and> (last rep = s ! (n - 1) \<or> last rep = CHR ''Z'')"
proof (intro allI impI)
  fix s rep n assume "match_quotes s = Some (rep, n)"
  then obtain bs t where s: "s = bs @ SQ # DQ # t"
    and r: "rep = [SQ, DQ]" and n: "n = length bs + 2"
    unfolding match_quotes_Some by blast
  have "s ! (length bs + 1) = DQ" unfolding s by (simp add: nth_append)
  moreover have "n - 1 = length bs + 1" using n by simp
  ultimately have "last rep = s ! (n - 1)" using r by simp
  moreover have "length s = length bs + 2 + length t" unfolding s by simp
  then have "1 \<le> n" "n \<le> length s" using n by simp_all
  moreover have "rep \<noteq> []" using r by simp
  ultimately show "1 \<le> n \<and> n \<le> length s \<and> rep \<noteq> [] \<and>
      (last rep = s ! (n - 1) \<or> last rep = CHR ''Z'')" by blast
qed

lemma three_rules_last:
  assumes "s \<noteq> []" and "last s = NL"
  shows "three_rules s \<noteq> [] \<and> (last (three_rules s) = NL \<or> last (three_rules s) = CHR ''Z'')"
proof -
  from last_re_sub [OF last_completed_ok assms(1)] assms(2)
  have 1: "fix_completed s \<noteq> []"
    "last (fix_completed s) = NL \<or> last (fix_completed s) = CHR ''Z''"
    unfolding fix_completed_def by auto
  from last_re_sub [OF last_created_ok 1(1)] 1(2)
  have 2: "fix_created (fix_completed s) \<noteq> []"
    "last (fix_created (fix_completed s)) = NL \<or> last (fix_created (fix_completed s)) = CHR ''Z''"
    unfolding fix_created_def by auto
  from last_re_sub [OF last_quotes_ok 2(1)] 2(2)
  show ?thesis unfolding three_rules_def fix_quotes_def by auto
qed

subsection \<open>Strip\<close>

lemma rstrip_decomp: "s = rstrip s @ rev (takeWhile is_space (rev s))"
  unfolding rstrip_def by (metis rev_append rev_rev_ident takeWhile_dropWhile_id)

lemma rstrip_append_ws:
  assumes "\<forall>c\<in>set ws. is_space c"
  shows "rstrip (a @ ws) = rstrip a"
proof -
  have "dropWhile is_space (rev ws @ rev a) = dropWhile is_space (rev a)"
    using assms by (intro dropWhile_append2) simp
  then show ?thesis by (simp add: rstrip_def)
qed

lemma strip_append_ws:
  assumes ws: "\<forall>c\<in>set ws. is_space c"
  shows "strip (u @ ws) = strip u"
proof (cases "\<forall>c\<in>set u. is_space c")
  case True
  then have "lstrip u = []" by (simp add: lstrip_def)
  moreover from True ws have "lstrip (u @ ws) = []" by (auto simp: lstrip_def)
  ultimately show ?thesis by (simp add: strip_def)
next
  case False
  then obtain x where "x \<in> set u" "\<not> is_space x" by blast
  then have "lstrip (u @ ws) = lstrip u @ ws" by (simp add: lstrip_def dropWhile_append1)
  then show ?thesis using ws by (simp add: strip_def rstrip_append_ws)
qed

lemma strip_hd: "strip s \<noteq> [] \<Longrightarrow> \<not> is_space (hd (strip s))"
proof -
  assume a: "strip s \<noteq> []"
  have l: "lstrip s = strip s @ rev (takeWhile is_space (rev (lstrip s)))"
    unfolding strip_def by (rule rstrip_decomp)
  with a have "lstrip s \<noteq> []" by auto
  then have "\<not> is_space (hd (lstrip s))" unfolding lstrip_def by (rule hd_dropWhile)
  moreover from l a have "hd (lstrip s) = hd (strip s)" by (metis hd_append2)
  ultimately show ?thesis by simp
qed

lemma strip_fixed:
  assumes "s = [] \<or> (\<not> is_space (hd s) \<and> \<not> is_space (last s))"
  shows "strip s = s"
proof (cases "s = []")
  case True
  then show ?thesis by (simp add: strip_def lstrip_def rstrip_def)
next
  case False
  with assms have h: "\<not> is_space (hd s)" and l: "\<not> is_space (last s)" by simp_all
  from False h have "lstrip s = s" by (cases s) (simp_all add: lstrip_def)
  moreover from False l have "rstrip s = s"
    by (cases s rule: rev_cases) (simp_all add: rstrip_def)
  ultimately show ?thesis by (simp add: strip_def)
qed

lemma strip_strip: "strip (strip s) = strip s"
  by (rule strip_fixed) (use strip_hd strip_last in blast)

lemma fix_trailing_decomp:
  "\<exists>u sp r. z = u @ sp @ r \<and> fix_trailing z = u @ r \<and> (\<forall>c\<in>set sp. c = SPC) \<and> (r = [] \<or> r = [NL])"
proof (induction z)
  case Nil
  have "[] = [] @ [] @ ([]::string)" "fix_trailing [] = [] @ []"
    "\<forall>c\<in>set ([]::string). c = SPC" "([]::string) = [] \<or> ([]::string) = [NL]" by simp_all
  then show ?case
    by - (rule exI [where x = "[]"], rule exI [where x = "[]"], rule exI [where x = "[]"],
        (intro conjI; assumption))
next
  case (Cons c cs)
  let ?r = "dropWhile (\<lambda>x. x = SPC) (c # cs)"
  let ?tw = "takeWhile (\<lambda>x. x = SPC) (c # cs)"
  show ?case
  proof (cases "?r = [] \<or> ?r = [NL]")
    case True
    have "fix_trailing (c # cs) = ?r"
      unfolding fix_trailing.simps Let_def using True by (rule if_P)
    then have 2: "fix_trailing (c # cs) = [] @ ?r" by (simp only: append_Nil)
    have 1: "c # cs = [] @ ?tw @ ?r" by (simp only: append_Nil takeWhile_dropWhile_id)
    have 3: "\<forall>x\<in>set ?tw. x = SPC" by (metis set_takeWhileD)
    from 1 2 3 True show ?thesis
      by - (rule exI [where x = "[]"], rule exI [where x = ?tw], rule exI [where x = ?r],
          (intro conjI; assumption))
  next
    case False
    have f: "fix_trailing (c # cs) = c # fix_trailing cs"
      unfolding fix_trailing.simps Let_def using False by (rule if_not_P)
    from Cons obtain u sp r where cs: "cs = u @ sp @ r" and ft: "fix_trailing cs = u @ r"
      and 3: "\<forall>c\<in>set sp. c = SPC" and 4: "r = [] \<or> r = [NL]" by blast
    have 1: "c # cs = (c # u) @ sp @ r" using cs by simp
    have 2: "fix_trailing (c # cs) = (c # u) @ r" using f ft by simp
    from 1 2 3 4 show ?thesis
      by - (rule exI [where x = "c # u"], rule exI [where x = sp], rule exI [where x = r],
          (intro conjI; assumption))
  qed
qed

lemma strip_fix_trailing: "strip (fix_trailing z) = strip z"
  using fix_trailing_decomp [of z]
proof (elim exE conjE)
  fix u sp r
  assume z: "z = u @ sp @ r" and f: "fix_trailing z = u @ r"
    and sp: "\<forall>c\<in>set sp. c = SPC" and r: "r = [] \<or> r = [NL]"
  have spc: "is_space SPC" and nl: "is_space NL" by (simp_all add: is_space_def)
  from r nl have a: "\<forall>c\<in>set r. is_space c" by (elim disjE) simp_all
  from sp spc have "\<forall>c\<in>set sp. is_space c" by metis
  with a have b: "\<forall>c\<in>set (sp @ r). is_space c" by (simp add: ball_Un)
  have "strip (u @ r) = strip u" using a by (rule strip_append_ws)
  also have "\<dots> = strip (u @ (sp @ r))" using b by (rule strip_append_ws [symmetric])
  finally have e: "strip (u @ r) = strip (u @ sp @ r)" .
  show ?thesis unfolding f unfolding z by (rule e)
qed

lemma fix_trailing_snoc:
  "core = [] \<or> last core \<noteq> SPC \<Longrightarrow> fix_trailing (core @ [NL]) = core @ [NL]"
proof (induction core)
  case Nil
  show ?case by (simp add: Let_def)
next
  case (Cons c cs)
  let ?d = "dropWhile (\<lambda>x. x = SPC) (c # cs)"
  from Cons.prems have l: "last (c # cs) \<noteq> SPC" by simp
  have m: "last (c # cs) \<in> set (c # cs)" by (rule last_in_set) simp
  have d: "?d \<noteq> []"
    unfolding dropWhile_eq_Nil_conv using l m by blast
  have "dropWhile (\<lambda>x. x = SPC) ((c # cs) @ [NL]) = ?d @ [NL]"
    using m l by (rule dropWhile_append1)
  then have r: "dropWhile (\<lambda>x. x = SPC) (c # (cs @ [NL])) = ?d @ [NL]" by (simp only: append_Cons)
  have "fix_trailing (c # (cs @ [NL])) = c # fix_trailing (cs @ [NL])"
    unfolding fix_trailing.simps(2) [of c "cs @ [NL]"] Let_def r using d by simp
  moreover have "cs = [] \<or> last cs \<noteq> SPC" using l by auto
  ultimately show ?case using Cons.IH by simp
qed

subsection \<open>A newline in place of the stripped tail\<close>

lemma append_eq_snoc:
  "u @ t = v @ [x] \<Longrightarrow> (t = [] \<and> u = v @ [x]) \<or> (\<exists>t'. t = t' @ [x] \<and> v = u @ t')"
  by (cases t rule: rev_cases) auto

lemma snoc_gen:
  assumes nl: "m [NL] = None"
  shows "\<forall>u v r. core = u @ v \<and> v \<noteq> [] \<and> m (v @ [NL]) = Some r \<longrightarrow> m (v @ trail) \<noteq> None \<Longrightarrow>
         nomatch m (core @ trail) \<Longrightarrow> nomatch m (core @ [NL])"
proof (induction core)
  case Nil
  show ?case using nl by simp
next
  case (Cons c cs)
  from Cons.prems(2) have none: "m ((c # cs) @ trail) = None" and rest: "nomatch m (cs @ trail)"
    by simp_all
  have step: "\<forall>u v r. cs = u @ v \<and> v \<noteq> [] \<and> m (v @ [NL]) = Some r \<longrightarrow> m (v @ trail) \<noteq> None"
  proof (intro allI impI)
    fix u v r assume a: "cs = u @ v \<and> v \<noteq> [] \<and> m (v @ [NL]) = Some r"
    then have "c # cs = (c # u) @ v" by simp
    with a Cons.prems(1) show "m (v @ trail) \<noteq> None" by blast
  qed
  have "m ((c # cs) @ [NL]) = None"
  proof (rule ccontr)
    assume "m ((c # cs) @ [NL]) \<noteq> None"
    then obtain r where "m ((c # cs) @ [NL]) = Some r" by auto
    moreover have "c # cs = [] @ (c # cs)" by simp
    ultimately have "m ((c # cs) @ trail) \<noteq> None" using Cons.prems(1) by blast
    with none show False by simp
  qed
  moreover have "nomatch m (cs @ [NL])" using step rest by (rule Cons.IH)
  ultimately show ?case by simp
qed

lemma created_snoc:
  assumes "match_created (v @ [NL]) = Some r"
  shows "match_created (v @ t) = Some r"
proof -
  let ?K = "''CREATED:00001231T000000Z''"
  from assms obtain t0 where e: "?K @ t0 = v @ [NL]" and r: "r = (''CREATED:19700101T000000Z'', 24)"
    unfolding match_created_Some by metis
  from append_eq_snoc [OF e] show ?thesis
  proof (elim disjE conjE exE)
    assume "?K = v @ [NL]"
    then have "last ?K = NL" by (simp only: last_snoc)
    then show ?thesis by simp
  next
    fix t' assume "v = ?K @ t'"
    then have "v @ t = ?K @ (t' @ t)" by simp
    then show ?thesis unfolding match_created_Some using r by blast
  qed
qed

lemma quotes_snoc:
  assumes "match_quotes (v @ [NL]) = Some r"
  shows "match_quotes (v @ t) = Some r"
proof -
  from assms obtain bs t0 where e0: "v @ [NL] = bs @ SQ # DQ # t0" and ne: "bs \<noteq> []"
    and b: "\<forall>b\<in>set bs. b = BSL" and r: "r = ([SQ, DQ], length bs + 2)"
    unfolding match_quotes_Some by blast
  from e0 have e: "(bs @ [SQ, DQ]) @ t0 = v @ [NL]" by simp
  from append_eq_snoc [OF e] show ?thesis
  proof (elim disjE conjE exE)
    assume "bs @ [SQ, DQ] = v @ [NL]"
    then have "last (bs @ [SQ, DQ]) = last (v @ [NL])" by (rule arg_cong)
    then show ?thesis by simp
  next
    fix t' assume "v = (bs @ [SQ, DQ]) @ t'"
    then have "v @ t = bs @ SQ # DQ # (t' @ t)" by simp
    then show ?thesis unfolding match_quotes_Some using ne b r by blast
  qed
qed

lemma crlf_snoc:
  assumes "match_crlf (v @ [NL]) = Some r"
  shows "v = [CR] \<or> match_crlf (v @ t) = Some r"
proof -
  from assms obtain t0 where e0: "v @ [NL] = CR # NL # t0" and r: "r = ([NL], 2)"
    unfolding match_crlf_Some by blast
  from e0 have e: "[CR, NL] @ t0 = v @ [NL]" by simp
  from append_eq_snoc [OF e] show ?thesis
  proof (elim disjE conjE exE)
    assume "[CR, NL] = v @ [NL]"
    then have "v = [CR]" by simp
    then show ?thesis by (rule disjI1)
  next
    fix t' assume "v = [CR, NL] @ t'"
    then have "v @ t = CR # NL # (t' @ t)" by simp
    then have "match_crlf (v @ t) = Some r" unfolding match_crlf_Some using r by blast
    then show ?thesis by (rule disjI2)
  qed
qed

lemma completed_snoc:
  assumes "match_completed (v @ [NL]) = Some r"
  shows "(\<exists>ds. v = ''COMPLETED:'' @ ds \<and> ds \<noteq> [] \<and> (\<forall>d\<in>set ds. is_digit d)) \<or>
         (\<forall>t. match_completed (v @ t) = Some r)"
proof -
  from assms obtain ds w t0 where e0: "v @ [NL] = ''COMPLETED:'' @ ds @ w # t0" and ne: "ds \<noteq> []"
    and dg: "\<forall>d\<in>set ds. is_digit d" and w: "is_space w"
    and r: "r = (''COMPLETED:'' @ ds @ ''T120000Z'', 10 + length ds + 1)"
    unfolding match_completed_Some by blast
  from e0 have e: "(''COMPLETED:'' @ ds @ [w]) @ t0 = v @ [NL]" by simp
  from append_eq_snoc [OF e] show ?thesis
  proof (elim disjE conjE exE)
    assume "''COMPLETED:'' @ ds @ [w] = v @ [NL]"
    then have "(''COMPLETED:'' @ ds) @ [w] = v @ [NL]" by simp
    then have "v = ''COMPLETED:'' @ ds" by (simp only: append1_eq_conv)
    with ne dg show ?thesis by blast
  next
    fix t' assume v: "v = (''COMPLETED:'' @ ds @ [w]) @ t'"
    have "match_completed (v @ t) = Some r" for t
    proof -
      have "v @ t = ''COMPLETED:'' @ ds @ w # (t' @ t)" unfolding v by simp
      then show ?thesis using match_completed_intro [OF ne dg w, of "t' @ t"] r by simp
    qed
    then show ?thesis by blast
  qed
qed

lemma nomatch_crlf_contains: "nomatch match_crlf s \<longleftrightarrow> \<not> contains s [CR, NL]"
  by (induction s) (simp_all add: match_crlf_def)

lemma canonical_last: "canonical x \<noteq> [] \<and> last (canonical x) = NL"
  by (simp add: canonical_def Let_def endswith_one)

lemma not_digit_NL_Z: "\<not> is_digit NL" "\<not> is_digit (CHR ''Z'')"
  by (simp_all add: is_digit_def)

text \<open>
  After the first three rules and \<open>strip\<close>, with a newline put behind, no position matches
  one of the three patterns; the same holds of \<open>"\r\n"\<close> when the canonical text has none.
\<close>

lemma core_nomatch:
  fixes x :: string
  defines "core \<equiv> strip (three_rules (canonical x))"
  shows "nomatch match_completed (core @ [NL])"
    and "nomatch match_created (core @ [NL])"
    and "nomatch match_quotes (core @ [NL])"
    and "\<not> contains (canonical x) [CR, NL] \<Longrightarrow> nomatch match_crlf (core @ [NL])"
proof -
  define e where "e = canonical x"
  define z where "z = three_rules e"
  define trail where "trail = rev (takeWhile is_space (rev (lstrip z)))"
  have core: "core = strip z" by (simp add: core_def z_def e_def)
  have e: "e \<noteq> []" "last e = NL" unfolding e_def using canonical_last by simp_all
  have core_ok: "core = [] \<or> (\<not> is_space (hd core) \<and> \<not> is_space (last core))"
    unfolding core using strip_hd strip_last by blast
  have ls: "lstrip z = core @ trail"
    unfolding core trail_def strip_def by (rule rstrip_decomp)
  have "z = takeWhile is_space z @ lstrip z" by (simp add: lstrip_def)
  then have zd: "z = takeWhile is_space z @ core @ trail" unfolding ls .
  have tr: "trail = [] \<or> is_space (hd trail)"
  proof (cases trail)
    case Nil
    then show ?thesis by simp
  next
    case (Cons w tt)
    then have "w \<in> set (takeWhile is_space (rev (lstrip z)))"
      unfolding trail_def by (metis list.set_intros(1) set_rev)
    then have "is_space w" by (metis set_takeWhileD)
    with Cons show ?thesis by simp
  qed
  have zl: "z \<noteq> [] \<and> (last z = NL \<or> last z = CHR ''Z'')"
    unfolding z_def using e by (rule three_rules_last)
  have core_digit: "\<not> is_digit (last core)" if "trail = []" "core \<noteq> []"
  proof -
    from zd that(1) have "z = takeWhile is_space z @ core" by (metis append_Nil2)
    then have "last z = last (takeWhile is_space z @ core)" by (rule arg_cong)
    with that have "last z = last core" by (metis last_appendR)
    with zl not_digit_NL_Z show ?thesis by metis
  qed
  have sub: "nomatch m (core @ trail)" if "nomatch m z" for m
  proof -
    have "nomatch m (takeWhile is_space z @ core @ trail)"
      by (subst zd [symmetric]) (rule that)
    then show ?thesis by (rule nomatch_append)
  qed
  show "nomatch match_completed (core @ [NL])"
  proof (rule snoc_gen [where trail = trail])
    show "match_completed [NL] = None" by (simp add: match_completed_start)
    show "nomatch match_completed (core @ trail)"
      by (rule sub, unfold z_def, rule three_rules_completed)
    show "\<forall>u v r. core = u @ v \<and> v \<noteq> [] \<and> match_completed (v @ [NL]) = Some r \<longrightarrow>
        match_completed (v @ trail) \<noteq> None"
    proof (intro allI impI, elim conjE)
      fix u v r
      assume c: "core = u @ v" and v: "v \<noteq> []" and m: "match_completed (v @ [NL]) = Some r"
      from completed_snoc [OF m] show "match_completed (v @ trail) \<noteq> None"
      proof (elim disjE exE conjE)
        fix ds assume vd: "v = ''COMPLETED:'' @ ds" and ne: "ds \<noteq> []"
          and dg: "\<forall>d\<in>set ds. is_digit d"
        show ?thesis
        proof (cases trail)
          case Nil
          from c v have "core \<noteq> []" "last core = last v" by simp_all
          moreover from vd ne have "last v = last ds" by simp
          moreover from ne dg have "is_digit (last ds)" by simp
          ultimately show ?thesis using core_digit [OF Nil] by simp
        next
          case (Cons w tt)
          with tr have "is_space w" by simp
          from match_completed_intro [OF ne dg this, of tt] show ?thesis
            unfolding vd Cons by simp
        qed
      next
        assume "\<forall>t. match_completed (v @ t) = Some r"
        then show ?thesis by simp
      qed
    qed
  qed
  show "nomatch match_created (core @ [NL])"
  proof (rule snoc_gen [where trail = trail])
    show "match_created [NL] = None" by (simp add: match_created_start)
    show "nomatch match_created (core @ trail)"
      by (rule sub, unfold z_def, rule three_rules_created)
    show "\<forall>u v r. core = u @ v \<and> v \<noteq> [] \<and> match_created (v @ [NL]) = Some r \<longrightarrow>
        match_created (v @ trail) \<noteq> None"
    proof (intro allI impI, elim conjE)
      fix u v r assume m: "match_created (v @ [NL]) = Some r"
      from created_snoc [OF m, of trail] show "match_created (v @ trail) \<noteq> None" by simp
    qed
  qed
  show "nomatch match_quotes (core @ [NL])"
  proof (rule snoc_gen [where trail = trail])
    show "match_quotes [NL] = None" by (simp add: match_quotes_start)
    show "nomatch match_quotes (core @ trail)"
      by (rule sub, unfold z_def, rule three_rules_quotes)
    show "\<forall>u v r. core = u @ v \<and> v \<noteq> [] \<and> match_quotes (v @ [NL]) = Some r \<longrightarrow>
        match_quotes (v @ trail) \<noteq> None"
    proof (intro allI impI, elim conjE)
      fix u v r assume m: "match_quotes (v @ [NL]) = Some r"
      from quotes_snoc [OF m, of trail] show "match_quotes (v @ trail) \<noteq> None" by simp
    qed
  qed
  show "nomatch match_crlf (core @ [NL])" if crlf: "\<not> contains (canonical x) [CR, NL]"
  proof (rule snoc_gen [where trail = trail])
    have "nomatch match_crlf e" unfolding nomatch_crlf_contains e_def by (rule crlf)
    then have z0: "nomatch match_crlf z" unfolding z_def by (rule three_rules_crlf)
    show "match_crlf [NL] = None" by (simp add: match_crlf_start)
    show "nomatch match_crlf (core @ trail)" using z0 by (rule sub)
    show "\<forall>u v r. core = u @ v \<and> v \<noteq> [] \<and> match_crlf (v @ [NL]) = Some r \<longrightarrow>
        match_crlf (v @ trail) \<noteq> None"
    proof (intro allI impI, elim conjE)
      fix u v r
      assume c: "core = u @ v" and v: "v \<noteq> []" and m: "match_crlf (v @ [NL]) = Some r"
      from crlf_snoc [OF m, of trail] show "match_crlf (v @ trail) \<noteq> None"
      proof (elim disjE)
        assume "v = [CR]"
        with c have "core \<noteq> []" "last core = CR" by simp_all
        moreover have "is_space CR" by (simp add: is_space_def)
        ultimately show ?thesis using core_ok by metis
      next
        assume "match_crlf (v @ trail) = Some r"
        then show ?thesis by simp
      qed
    qed
  qed
qed

subsection \<open>Patterns stay within a line\<close>

lemma startswith_line: "c \<notin> set p \<Longrightarrow> startswith (l @ c # t) p = startswith l p"
proof (induction p arbitrary: l)
  case Nil
  show ?case by simp
next
  case (Cons d p)
  then show ?case by (cases l) (auto simp: startswith_Cons)
qed

lemma takeWhile_line: "\<not> P c \<Longrightarrow> takeWhile P (l @ c # t) = takeWhile P l"
  by (induction l) auto

lemma dropWhile_line: "\<not> P c \<Longrightarrow> dropWhile P (l @ c # t) = dropWhile P l @ c # t"
  by (induction l) auto

lemma local_created: "line_local match_created"
  unfolding line_local_def match_created_def by (simp add: startswith_line)

lemma local_quotes: "line_local match_quotes"
  unfolding line_local_def match_quotes_def Let_def
  by (simp add: startswith_line takeWhile_line dropWhile_line)

lemma match_completed_prefix:
  "match_completed (''COMPLETED:'' @ u) =
     (case dropWhile is_digit u of
        w # _ \<Rightarrow> if takeWhile is_digit u \<noteq> [] \<and> is_space w
                 then Some (''COMPLETED:'' @ takeWhile is_digit u @ ''T120000Z'',
                            10 + length (takeWhile is_digit u) + 1)
                 else None
      | [] \<Rightarrow> None)"
  by (simp add: match_completed_def startswith_def Let_def)

lemma local_completed: "line_local match_completed"
  unfolding line_local_def
proof (intro allI impI)
  fix l t
  assume nl: "NL \<notin> set l"
  show "match_completed (l @ NL # t) = match_completed (l @ [NL])"
  proof (cases "startswith l ''COMPLETED:''")
    case False
    then show ?thesis by (simp add: match_completed_def startswith_line)
  next
    case True
    then obtain r where l: "l = ''COMPLETED:'' @ r" unfolding startswith_append by blast
    have nd: "\<not> is_digit NL" by (simp add: is_digit_def)
    have a: "match_completed (l @ NL # t') = match_completed (''COMPLETED:'' @ (r @ NL # t'))"
      for t' by (simp add: l)
    have tw: "takeWhile is_digit (r @ NL # t') = takeWhile is_digit r" for t'
      using nd by (rule takeWhile_line)
    have dw: "dropWhile is_digit (r @ NL # t') = dropWhile is_digit r @ NL # t'" for t'
      using nd by (rule dropWhile_line)
    show ?thesis
      unfolding a match_completed_prefix tw dw
      by (cases "dropWhile is_digit r") (simp_all del: dropWhile_eq_Nil_conv)
  qed
qed

lemma nomatch_line:
  assumes "line_local m"
  shows "NL \<notin> set l \<Longrightarrow> nomatch m (l @ NL # t) \<longleftrightarrow> nomatch m (l @ [NL]) \<and> nomatch m t"
proof (induction l)
  case Nil
  from assms [unfolded line_local_def, rule_format, of "[]" t]
  show ?case by simp
next
  case (Cons c l)
  then have nl: "NL \<notin> set (c # l)" by simp
  from assms [unfolded line_local_def, rule_format, OF nl, of t]
  have "m (c # l @ NL # t) = m (c # l @ [NL])" by simp
  with Cons show ?case by simp
qed

lemma nomatch_lines:
  assumes "line_local m"
  shows "ls \<noteq> [] \<Longrightarrow> \<forall>l\<in>set ls. NL \<notin> set l \<Longrightarrow>
         nomatch m (join_nl ls @ [NL]) \<longleftrightarrow> (\<forall>l\<in>set ls. nomatch m (l @ [NL]))"
proof (induction ls rule: join_nl.induct)
  case 1
  then show ?case by simp
next
  case (2 l)
  show ?case by simp
next
  case (3 l k ls)
  then have nl: "NL \<notin> set l" by simp
  have e: "join_nl (l # k # ls) @ [NL] = l @ NL # (join_nl (k # ls) @ [NL])" by simp
  have "nomatch m (join_nl (l # k # ls) @ [NL]) \<longleftrightarrow>
      nomatch m (l @ [NL]) \<and> nomatch m (join_nl (k # ls) @ [NL])"
    unfolding e using assms nl by (rule nomatch_line)
  with 3 show ?case by simp
qed

subsection \<open>Counting carriage returns and characters\<close>

lemma sum_filter_lines:
  "sum_list (map f (filter_lines st ls)) \<le> sum_list (map (f :: string \<Rightarrow> nat) ls)"
proof (induction ls arbitrary: st)
  case Nil
  show ?case by simp
next
  case (Cons l ls)
  obtain keep st' where c: "line_filter_call st l = (keep, st')"
    by (cases "line_filter_call st l")
  from Cons [of st'] c show ?case by (cases keep) simp_all
qed

lemma length_filter_lines: "length (filter_lines st ls) \<le> length ls"
proof (induction ls arbitrary: st)
  case Nil
  show ?case by simp
next
  case (Cons l ls)
  obtain keep st' where c: "line_filter_call st l = (keep, st')"
    by (cases "line_filter_call st l")
  from Cons [of st'] c show ?case by (cases keep) simp_all
qed

lemma length_join_nl: "length (join_nl ls) = sum_list (map length ls) + (length ls - 1)"
  by (induction ls rule: join_nl.induct) simp_all

lemma length_join_filter: "length (join_nl (filter_lines st ls)) \<le> length (join_nl ls)"
  unfolding length_join_nl
  using sum_filter_lines [of length st ls] length_filter_lines [of st ls] by arith

lemma count_cr_append [simp]: "count_cr (u @ v) = count_cr u + count_cr v"
  by (simp add: count_cr_def)

lemma count_cr_join_nl: "count_cr (join_nl ls) = sum_list (map count_cr ls)"
  by (induction ls rule: join_nl.induct) (simp_all add: count_cr_def)

lemma count_cr_join_filter: "count_cr (join_nl (filter_lines st ls)) \<le> count_cr (join_nl ls)"
  unfolding count_cr_join_nl by (rule sum_filter_lines)

lemma count_cr_drop: "count_cr (drop k s) \<le> count_cr s"
proof -
  have "count_cr (take k s @ drop k s) = count_cr (take k s) + count_cr (drop k s)"
    by (rule count_cr_append)
  then show ?thesis by simp
qed

lemma count_cr_none: "CR \<notin> set rep \<Longrightarrow> count_cr rep = 0"
  by (induction rep) (auto simp: count_cr_def)

lemma count_cr_re_sub:
  assumes "\<forall>s rep n. m s = Some (rep, n) \<longrightarrow> CR \<notin> set rep"
  shows "count_cr (re_sub m s) \<le> count_cr s"
proof (induction s rule: length_induct)
  case (1 s)
  show ?case
  proof (cases s)
    case Nil
    then show ?thesis by simp
  next
    case (Cons c cs)
    show ?thesis
    proof (cases "m (c # cs)")
      case None
      from 1 Cons have "count_cr (re_sub m cs) \<le> count_cr cs" by simp
      with None Cons show ?thesis by (simp add: count_cr_def)
    next
      case (Some r)
      obtain rep n where r: "r = (rep, n)" by (cases r)
      with Some assms have "CR \<notin> set rep" by blast
      then have z: "count_cr rep = 0" by (rule count_cr_none)
      have "length (drop (n - 1) cs) < length s" using Cons by simp
      with 1 have "count_cr (re_sub m (drop (n - 1) cs)) \<le> count_cr (drop (n - 1) cs)"
        by blast
      also have "\<dots> \<le> count_cr cs" by (rule count_cr_drop)
      also have "\<dots> \<le> count_cr (c # cs)" by (simp add: count_cr_def)
      finally show ?thesis using Some r z Cons by simp
    qed
  qed
qed

lemma count_cr_to_normal_str:
  "contains s [CR, NL] \<Longrightarrow> count_cr (to_normal_str s) < count_cr s"
proof (induction s)
  case Nil
  then show ?case by simp
next
  case (Cons c cs)
  have cl: "\<forall>s rep n. match_crlf s = Some (rep, n) \<longrightarrow> CR \<notin> set rep"
    by (auto simp: match_crlf_def split: if_splits)
  show ?case
  proof (cases "startswith (c # cs) [CR, NL]")
    case True
    then have c: "c = CR" by (simp add: startswith_Cons)
    from True have "to_normal_str (c # cs) = NL # re_sub match_crlf (drop 1 cs)"
      by (simp add: to_normal_str_def match_crlf_def)
    then have "count_cr (to_normal_str (c # cs)) = count_cr (re_sub match_crlf (drop 1 cs))"
      by (simp add: count_cr_def)
    also have "\<dots> \<le> count_cr (drop 1 cs)" using cl by (rule count_cr_re_sub)
    also have "\<dots> \<le> count_cr cs" by (rule count_cr_drop)
    also have "\<dots> < count_cr (c # cs)" using c by (simp add: count_cr_def)
    finally show ?thesis .
  next
    case False
    with Cons.prems have "contains cs [CR, NL]" by simp
    then have "count_cr (to_normal_str cs) < count_cr cs" by (rule Cons.IH)
    moreover from False have "to_normal_str (c # cs) = c # to_normal_str cs"
      by (simp add: to_normal_str_def match_crlf_def)
    ultimately show ?thesis by (simp add: count_cr_def)
  qed
qed

lemma strip_decomp: "\<exists>a b. s = a @ strip s @ b"
proof -
  have "lstrip s = strip s @ rev (takeWhile is_space (rev (lstrip s)))"
    unfolding strip_def by (rule rstrip_decomp)
  moreover have "s = takeWhile is_space s @ lstrip s" by (simp add: lstrip_def)
  ultimately have "s = takeWhile is_space s @ strip s @ rev (takeWhile is_space (rev (lstrip s)))"
    by metis
  then show ?thesis by blast
qed

lemma count_cr_strip: "count_cr (strip s) \<le> count_cr s"
proof -
  from strip_decomp [of s] obtain a b where s: "s = a @ strip s @ b" by blast
  have "count_cr (a @ strip s @ b) = count_cr a + count_cr (strip s) + count_cr b" by simp
  with s show ?thesis by (metis le_add1 le_add2 le_trans)
qed

lemma length_strip: "length (strip s) \<le> length s"
proof -
  from strip_decomp [of s] obtain a b where s: "s = a @ strip s @ b" by blast
  have "length (a @ strip s @ b) = length a + length (strip s) + length b" by simp
  with s show ?thesis by (metis le_add1 le_add2 le_trans)
qed

lemma count_cr_fix_trailing: "count_cr (fix_trailing z) \<le> count_cr z"
  using fix_trailing_decomp [of z]
proof (elim exE conjE)
  fix u sp r
  assume z: "z = u @ sp @ r" and f: "fix_trailing z = u @ r"
  have "count_cr (u @ r) \<le> count_cr (u @ sp @ r)" by simp
  then show ?thesis unfolding f z [symmetric] .
qed

lemma count_cr_three_rules: "count_cr (three_rules s) \<le> count_cr s"
proof -
  have d: "is_digit d \<Longrightarrow> d \<noteq> CR" for d by (rule digit_not_CR)
  have 1: "\<forall>s rep n. match_completed s = Some (rep, n) \<longrightarrow> CR \<notin> set rep"
  proof (intro allI impI)
    fix s rep n assume "match_completed s = Some (rep, n)"
    then obtain ds where "rep = ''COMPLETED:'' @ ds @ ''T120000Z''" "\<forall>d\<in>set ds. is_digit d"
      by (rule completed_rep)
    with d show "CR \<notin> set rep" by auto
  qed
  have 2: "\<forall>s rep n. match_created s = Some (rep, n) \<longrightarrow> CR \<notin> set rep"
    using created_rep by fastforce
  have 3: "\<forall>s rep n. match_quotes s = Some (rep, n) \<longrightarrow> CR \<notin> set rep"
    using quotes_rep by fastforce
  have "count_cr (three_rules s) \<le> count_cr (fix_created (fix_completed s))"
    unfolding three_rules_def fix_quotes_def using 3 by (rule count_cr_re_sub)
  also have "\<dots> \<le> count_cr (fix_completed s)"
    unfolding fix_created_def using 2 by (rule count_cr_re_sub)
  also have "\<dots> \<le> count_cr s"
    unfolding fix_completed_def using 1 by (rule count_cr_re_sub)
  finally show ?thesis .
qed

lemma count_cr_vcal_fix: "count_cr (vcal_fix y) \<le> count_cr (to_normal_str y)"
proof -
  let ?s = "strip (regex_fixups (canonical y))"
  have "vcal_fix y = join_nl (filter_lines line_filter_init (split_nl ?s)) @ [NL]"
    by (simp add: vcal_fix_fixed2 fixed2_def)
  then have "count_cr (vcal_fix y) = count_cr (join_nl (filter_lines line_filter_init (split_nl ?s)))"
    by (simp add: count_cr_def)
  also have "\<dots> \<le> count_cr (join_nl (split_nl ?s))" by (rule count_cr_join_filter)
  also have "\<dots> = count_cr ?s" by simp
  also have "\<dots> \<le> count_cr (regex_fixups (canonical y))" by (rule count_cr_strip)
  also have "\<dots> = count_cr (fix_trailing (three_rules (canonical y)))"
    by (simp add: regex_fixups_def three_rules_def)
  also have "\<dots> \<le> count_cr (three_rules (canonical y))" by (rule count_cr_fix_trailing)
  also have "\<dots> \<le> count_cr (canonical y)" by (rule count_cr_three_rules)
  also have "\<dots> = count_cr (to_normal_str y)"
    by (simp add: canonical_def Let_def count_cr_def)
  finally show ?thesis .
qed

lemma fix_changes_crlf: "contains y [CR, NL] \<Longrightarrow> vcal_fix y \<noteq> y"
proof
  assume c: "contains y [CR, NL]" and e: "vcal_fix y = y"
  from c have "count_cr (to_normal_str y) < count_cr y" by (rule count_cr_to_normal_str)
  with count_cr_vcal_fix [of y] have "count_cr (vcal_fix y) < count_cr y" by simp
  with e show False by simp
qed

subsection \<open>The second pass\<close>

lemma fixed_lines_core: "fixed_lines x = split_nl (strip (three_rules (canonical x)))"
  by (simp add: fixed_lines_def regex_fixups_def three_rules_def strip_fix_trailing)

lemma split_nl_hd: "c \<noteq> NL \<Longrightarrow> \<exists>l ls. split_nl (c # cs) = (c # l) # ls"
  using split_nl_nonempty [of cs] by (cases "split_nl cs") auto

lemma filter_lines_first:
  "filter_lines line_filter_init (l # ls) =
     l # filter_lines (snd (line_filter_call line_filter_init l)) ls"
  by (simp add: line_filter_call_def line_filter_init_def)

lemma join_nl_hd: "join_nl ((c # l) # ls) = c # join_nl (l # ls)"
  by (cases ls) simp_all

lemma fix_output_hd:
  assumes "butlast (vcal_fix x) \<noteq> []"
  shows "\<not> is_space (hd (butlast (vcal_fix x)))"
proof -
  let ?core = "strip (three_rules (canonical x))"
  have out: "vcal_fix x = join_nl (filter_lines line_filter_init (split_nl ?core)) @ [NL]"
    unfolding vcal_fix_fixed2 fixed2_lines fixed_lines_core ..
  show ?thesis
  proof (cases ?core)
    case Nil
    have "vcal_fix x = join_nl (filter_lines line_filter_init (split_nl [])) @ [NL]"
      using out unfolding Nil .
    also have "\<dots> = [NL]" by code_simp
    finally have "vcal_fix x = [NL]" .
    with assms show ?thesis by simp
  next
    case (Cons c cs)
    then have "?core \<noteq> []" by simp
    then have "\<not> is_space (hd ?core)" by (rule strip_hd)
    with Cons have c: "\<not> is_space c" by simp
    then have "c \<noteq> NL" by (auto simp: is_space_def)
    then obtain l ls where "split_nl (c # cs) = (c # l) # ls" using split_nl_hd by blast
    with Cons out have "butlast (vcal_fix x) =
        c # join_nl (l # filter_lines (snd (line_filter_call line_filter_init (c # l))) ls)"
      by (simp add: filter_lines_first join_nl_hd del: filter_lines.simps)
    with c show ?thesis by simp
  qed
qed

lemma fix_output_nomatch:
  shows "nomatch match_completed (vcal_fix x)"
    and "nomatch match_created (vcal_fix x)"
    and "nomatch match_quotes (vcal_fix x)"
proof -
  let ?core = "strip (three_rules (canonical x))"
  let ?kept = "filter_lines line_filter_init (split_nl ?core)"
  have out: "vcal_fix x = join_nl ?kept @ [NL]"
    unfolding vcal_fix_fixed2 fixed2_lines fixed_lines_core ..
  have ne: "?kept \<noteq> []" by (rule filter_lines_nonempty) simp
  have sub: "set ?kept \<subseteq> set (split_nl ?core)" by (rule filter_lines_subset)
  have nl: "\<forall>l\<in>set (split_nl ?core). NL \<notin> set l" using split_nl_no_newline by blast
  with sub have nlk: "\<forall>l\<in>set ?kept. NL \<notin> set l" by blast
  have gen: "nomatch m (vcal_fix x)" if loc: "line_local m" and c: "nomatch m (?core @ [NL])" for m
  proof -
    have "nomatch m (join_nl (split_nl ?core) @ [NL])" using c by simp
    then have "\<forall>l\<in>set (split_nl ?core). nomatch m (l @ [NL])"
      using nomatch_lines [OF loc split_nl_nonempty nl] by blast
    with sub have "\<forall>l\<in>set ?kept. nomatch m (l @ [NL])" by blast
    then show ?thesis unfolding out using nomatch_lines [OF loc ne nlk] by blast
  qed
  show "nomatch match_completed (vcal_fix x)"
    using local_completed core_nomatch(1) by (rule gen)
  show "nomatch match_created (vcal_fix x)"
    using local_created core_nomatch(2) by (rule gen)
  show "nomatch match_quotes (vcal_fix x)"
    using local_quotes core_nomatch(3) by (rule gen)
qed

text \<open>The second pass up to \<open>strip\<close>, on an output without \<open>"\r\n"\<close>.\<close>

lemma fix_output_second_pass:
  assumes "\<not> contains (vcal_fix x) [CR, NL]"
  shows "canonical (vcal_fix x) = vcal_fix x"
    and "three_rules (vcal_fix x) = vcal_fix x"
    and "fixed_lines (vcal_fix x) = split_nl (strip (butlast (vcal_fix x)))"
proof -
  let ?y = "vcal_fix x"
  have out: "?y = butlast ?y @ [NL]" by (simp add: vcal_fix_fixed2 fixed2_def)
  then have en: "endswith ?y [NL]" by (metis endswith_one last_snoc snoc_eq_iff_butlast)
  from assms have "nomatch match_crlf ?y" unfolding nomatch_crlf_contains .
  then have "to_normal_str ?y = ?y" unfolding to_normal_str_def by (rule re_sub_nomatch)
  with en show c: "canonical ?y = ?y" by (simp add: canonical_def Let_def)
  show t: "three_rules ?y = ?y"
    unfolding three_rules_def fix_completed_def fix_created_def fix_quotes_def
    by (simp add: re_sub_nomatch fix_output_nomatch)
  have nl: "\<forall>c\<in>set [NL]. is_space c" by (simp add: is_space_def)
  have "strip ?y = strip (butlast ?y @ [NL])" using out by simp
  also have "\<dots> = strip (butlast ?y)" using nl by (rule strip_append_ws)
  finally show "fixed_lines ?y = split_nl (strip (butlast ?y))"
    unfolding fixed_lines_core c t by simp
qed

lemma rstrip_shorter:
  assumes "u \<noteq> []" and "is_space (last u)"
  shows "length (rstrip u) < length u"
proof -
  from assms(1) have "rev u = last u # rev (butlast u)"
    by (metis append_butlast_last_id rev.simps(2) rev_rev_ident rev_swap)
  moreover from assms(2)
  have "dropWhile is_space (last u # rev (butlast u)) = dropWhile is_space (rev (butlast u))"
    by simp
  ultimately have "dropWhile is_space (rev u) = dropWhile is_space (rev (butlast u))"
    by metis
  moreover have "length (dropWhile is_space (rev (butlast u))) \<le> length (rev (butlast u))"
    by (rule length_dropWhile_le)
  ultimately have "length (rstrip u) \<le> length (rev (butlast u))"
    by (simp add: rstrip_def)
  also have "\<dots> < length u" using assms(1) by simp
  finally show ?thesis .
qed

lemma strip_shorter:
  assumes "s \<noteq> []" and "is_space (last s)"
  shows "length (strip s) < length s"
proof (cases "lstrip s = []")
  case True
  with assms(1) show ?thesis by (simp add: strip_def rstrip_def)
next
  case False
  have "s = takeWhile is_space s @ lstrip s" by (simp add: lstrip_def)
  with False have "last s = last (lstrip s)" by (metis last_appendR)
  with assms(2) False have "length (rstrip (lstrip s)) < length (lstrip s)"
    by (intro rstrip_shorter) simp_all
  also have "\<dots> \<le> length s" unfolding lstrip_def by (rule length_dropWhile_le)
  finally show ?thesis unfolding strip_def .
qed

lemma fix_changes_trailing_space:
  assumes nc: "\<not> contains (vcal_fix x) [CR, NL]"
    and ne: "butlast (vcal_fix x) \<noteq> []"
    and sp: "is_space (last (butlast (vcal_fix x)))"
  shows "vcal_fix (vcal_fix x) \<noteq> vcal_fix x"
proof -
  let ?y = "vcal_fix x"
  let ?j = "butlast ?y"
  have out: "?y = ?j @ [NL]" by (simp add: vcal_fix_fixed2 fixed2_def)
  have "vcal_fix ?y = join_nl (filter_lines line_filter_init (split_nl (strip ?j))) @ [NL]"
    unfolding vcal_fix_fixed2 [of ?y] fixed2_lines fix_output_second_pass(3) [OF nc] ..
  then have "length (vcal_fix ?y) =
      length (join_nl (filter_lines line_filter_init (split_nl (strip ?j)))) + 1" by simp
  also have "\<dots> \<le> length (join_nl (split_nl (strip ?j))) + 1"
    by (rule add_right_mono) (rule length_join_filter)
  also have "\<dots> = length (strip ?j) + 1" by simp
  also have "\<dots> < length ?j + 1" using strip_shorter [OF ne sp] by simp
  also have "\<dots> = length ?y" by (subst (2) out) simp
  finally show ?thesis by auto
qed

lemma fix_idempotent_settled:
  assumes "settled (vcal_fix x)"
  shows "vcal_fix (vcal_fix x) = vcal_fix x"
proof -
  let ?y = "vcal_fix x"
  let ?j = "butlast ?y"
  from assms have nc: "\<not> contains ?y [CR, NL]"
    and j: "?j = [] \<or> \<not> is_space (last ?j)" by (simp_all add: settled_def)
  have out: "?y = ?j @ [NL]" by (simp add: vcal_fix_fixed2 fixed2_def)
  have "is_space SPC" by (simp add: is_space_def)
  with j have "?j = [] \<or> last ?j \<noteq> SPC" by metis
  then have "fix_trailing (?j @ [NL]) = ?j @ [NL]" by (rule fix_trailing_snoc)
  then have ft: "fix_trailing ?y = ?y" using out by simp
  have r: "regex_fixups (canonical ?y) = ?y"
    using fix_output_second_pass(1,2) [OF nc] ft
    by (simp add: regex_fixups_def three_rules_def)
  from j fix_output_hd have "?j = [] \<or> (\<not> is_space (hd ?j) \<and> \<not> is_space (last ?j))" by blast
  then have sj: "strip ?j = ?j" by (rule strip_fixed)
  have nl: "\<forall>c\<in>set [NL]. is_space c" by (simp add: is_space_def)
  have "strip ?y = strip (?j @ [NL])" using out by simp
  also have "\<dots> = strip ?j" using nl by (rule strip_append_ws)
  finally have "strip ?y @ [NL] = ?y" using sj out by simp
  with r show ?thesis by (rule fix_idempotent_stable_output)
qed

text \<open>
  When the filter drops no line and the canonical text has no carriage return before a
  newline, the output is of this kind.
\<close>

lemma fix_settled_without_drops:
  assumes keep: "filter_lines line_filter_init (fixed_lines x) = fixed_lines x"
    and crlf: "\<not> contains (canonical x) [CR, NL]"
  shows "settled (vcal_fix x)"
proof -
  let ?core = "strip (three_rules (canonical x))"
  have "vcal_fix x = join_nl (split_nl ?core) @ [NL]"
    unfolding vcal_fix_fixed2 fixed2_lines keep unfolding fixed_lines_core ..
  then have out: "vcal_fix x = ?core @ [NL]" by simp
  from crlf have "nomatch match_crlf (?core @ [NL])" by (rule core_nomatch(4))
  then have "\<not> contains (vcal_fix x) [CR, NL]" unfolding out nomatch_crlf_contains .
  moreover have "?core = [] \<or> \<not> is_space (last ?core)" using strip_last by blast
  ultimately show ?thesis unfolding settled_def out by simp
qed

lemma fix_idempotent_without_drops:
  assumes "filter_lines line_filter_init (fixed_lines x) = fixed_lines x"
    and "\<not> contains (canonical x) [CR, NL]"
  shows "vcal_fix (vcal_fix x) = vcal_fix x"
  using assms by (intro fix_idempotent_settled fix_settled_without_drops)

text \<open>
  C6, as the code has it: a second pass of \<open>fix\<close> changes nothing exactly when the output of
  the first pass has no carriage return directly before a newline and no whitespace character
  directly before its final newline.
\<close>

theorem fix_idempotent_iff:
  "vcal_fix (vcal_fix x) = vcal_fix x \<longleftrightarrow> settled (vcal_fix x)"
proof
  assume "settled (vcal_fix x)"
  then show "vcal_fix (vcal_fix x) = vcal_fix x" by (rule fix_idempotent_settled)
next
  assume e: "vcal_fix (vcal_fix x) = vcal_fix x"
  show "settled (vcal_fix x)"
  proof (rule ccontr)
    assume "\<not> settled (vcal_fix x)"
    then consider "contains (vcal_fix x) [CR, NL]"
      | "\<not> contains (vcal_fix x) [CR, NL]" "butlast (vcal_fix x) \<noteq> []"
        "is_space (last (butlast (vcal_fix x)))"
      unfolding settled_def by blast
    then show False
    proof cases
      case 1
      then have "vcal_fix (vcal_fix x) \<noteq> vcal_fix x" by (rule fix_changes_crlf)
      with e show False by simp
    next
      case 2
      then have "vcal_fix (vcal_fix x) \<noteq> vcal_fix x" by (rule fix_changes_trailing_space)
      with e show False by simp
    qed
  qed
qed

theorem fix_idempotent_iff_witness:
  "settled (vcal_fix ''BEGIN:VEVENT\<newline>DTSTAMP:1\<newline>DTSTAMP:2\<newline>END:VEVENT'') \<and>
   vcal_fix (vcal_fix ''BEGIN:VEVENT\<newline>DTSTAMP:1\<newline>DTSTAMP:2\<newline>END:VEVENT'')
     = vcal_fix ''BEGIN:VEVENT\<newline>DTSTAMP:1\<newline>DTSTAMP:2\<newline>END:VEVENT'' \<and>
   \<not> settled (vcal_fix (''A'' @ [CR, CR, NL] @ ''B'')) \<and>
   vcal_fix (vcal_fix (''A'' @ [CR, CR, NL] @ ''B'')) \<noteq> vcal_fix (''A'' @ [CR, CR, NL] @ ''B'')"
proof -
  have a: "settled (vcal_fix ''BEGIN:VEVENT\<newline>DTSTAMP:1\<newline>DTSTAMP:2\<newline>END:VEVENT'')"
    by code_simp
  have b: "\<not> settled (vcal_fix (''A'' @ [CR, CR, NL] @ ''B''))"
    by code_simp
  from a fix_idempotent_iff [of "''BEGIN:VEVENT\<newline>DTSTAMP:1\<newline>DTSTAMP:2\<newline>END:VEVENT''"]
  have a': "vcal_fix (vcal_fix ''BEGIN:VEVENT\<newline>DTSTAMP:1\<newline>DTSTAMP:2\<newline>END:VEVENT'')
     = vcal_fix ''BEGIN:VEVENT\<newline>DTSTAMP:1\<newline>DTSTAMP:2\<newline>END:VEVENT''" by blast
  from b fix_idempotent_iff [of "''A'' @ [CR, CR, NL] @ ''B''"]
  have b': "vcal_fix (vcal_fix (''A'' @ [CR, CR, NL] @ ''B'')) \<noteq> vcal_fix (''A'' @ [CR, CR, NL] @ ''B'')"
    by blast
  from a a' b b' show ?thesis by (intro conjI)
qed

section \<open>Properties of \<open>create_ical\<close>\<close>

subsection \<open>The splice without backslashes\<close>

text \<open>
  A fragment without a backslash is a template that stands for itself, and the splice
  then puts it, followed by a newline, before the first line that starts with \<open>END:V\<close>.
\<close>

lemma expand_template_plain: "BSL \<notin> set t \<Longrightarrow> expand_template g0 t = Some t"
  by (induction g0 t rule: expand_template.induct) auto

lemma find_bol_startswith: "find_bol p bol s = Some i \<Longrightarrow> startswith (drop i s) p"
proof (induction s arbitrary: bol i)
  case Nil
  then show ?case by (auto simp: startswith_def split: if_splits)
next
  case (Cons c cs)
  then show ?case by (auto split: if_splits)
qed

lemma find_bol_bound: "find_bol p bol s = Some i \<Longrightarrow> i + length p \<le> length s"
proof (induction s arbitrary: bol i)
  case Nil
  then show ?case by (auto split: if_splits)
next
  case (Cons c cs)
  show ?case
  proof (cases "bol \<and> startswith (c # cs) p")
    case True
    then have "length (take (length p) (c # cs)) = length p"
      by (simp add: startswith_def)
    then have "length p \<le> length (c # cs)"
      unfolding length_take by linarith
    with True Cons.prems show ?thesis by simp
  next
    case False
    with Cons.prems obtain j where "find_bol p (c = NL) cs = Some j" "i = Suc j" by auto
    with Cons.IH show ?thesis by fastforce
  qed
qed

lemma splice_verbatim_without_backslash:
  assumes "BSL \<notin> set f"
  shows "sub_end_once (f @ [NL] @ ''END:V'') ret = Inr (splice_before_first_end f ret)"
proof -
  have "BSL \<notin> set (f @ [NL] @ ''END:V'')" using assms by simp
  then have t: "expand_template ''END:V'' (f @ [NL] @ ''END:V'') = Some (f @ [NL] @ ''END:V'')"
    by (rule expand_template_plain)
  show ?thesis
  proof (cases "find_bol ''END:V'' True ret")
    case None
    with t show ?thesis by (simp add: sub_end_once_def splice_before_first_end_def)
  next
    case (Some i)
    then have "startswith (drop i ret) ''END:V''" by (rule find_bol_startswith)
    then have "drop i ret = ''END:V'' @ drop (length ''END:V'') (drop i ret)"
      unfolding startswith_def by (metis append_take_drop_id)
    moreover have "length ''END:V'' = 5" by simp
    ultimately have "drop i ret = ''END:V'' @ drop 5 (drop i ret)"
      by (simp only:)
    then have "drop i ret = ''END:V'' @ drop (i + 5) ret"
      by (simp only: drop_drop add.commute [of 5 i])
    with t Some show ?thesis by (simp add: sub_end_once_def splice_before_first_end_def)
  qed
qed

subsection \<open>A fragment with a component\<close>

text \<open>
  C1, as the code has it: when the fragment has a line that starts with \<open>BEGIN:V\<close>, its
  calendar text is parsed, the properties of the caller are merged into the first
  subcomponent, and \<open>create_ical\<close> returns the text that the serializer gives for this calendar:
  the fragment is set to \<open>None\<close> (line 183), so nothing is spliced. Text that does not parse
  gives \<open>ValueError\<close>, a calendar without a subcomponent \<open>IndexError\<close>.
\<close>

theorem augment_discards_fragment:
  assumes "search_begin (to_normal_str f)"
  shows "create_ical e (Some f) objtype language props =
     (case from_ical e (calendar_text (to_normal_str f)) of
        None \<Rightarrow> Inl ValueError
      | Some my_instance \<Rightarrow>
          (case subcomponents my_instance of
             [] \<Rightarrow> Inl IndexError
           | component # others \<Rightarrow>
               (case merge_props e props component of
                  Inl x \<Rightarrow> Inl x
                | Inr c \<Rightarrow>
                    Inr (to_normal_str (to_ical e
                      (Component (cname my_instance) (cprops my_instance) (c # others)))))))"
proof -
  have ne: "to_normal_str f \<noteq> []"
    using assms by (auto simp: search_begin_def)
  have a: "augment e (to_normal_str f) props =
     (case from_ical e (calendar_text (to_normal_str f)) of
        None \<Rightarrow> Inl ValueError
      | Some my_instance \<Rightarrow>
          (case subcomponents my_instance of
             [] \<Rightarrow> Inl IndexError
           | component # others \<Rightarrow> Inr (my_instance, props, None)))"
    by (simp add: augment_def calendar_text_def Let_def)
  have m: "merged_tree e (Some f) objtype language props =
     (case augment e (to_normal_str f) props of
        Inl x \<Rightarrow> Inl x
      | Inr (my_instance, props', frag) \<Rightarrow>
          (case subcomponents my_instance of
             [] \<Rightarrow> Inl IndexError
           | component # others \<Rightarrow>
               (case merge_props e props' component of
                  Inl x \<Rightarrow> Inl x
                | Inr c \<Rightarrow>
                    Inr (Component (cname my_instance) (cprops my_instance) (c # others), frag))))"
    using assms ne by (simp add: merged_tree_def Let_def)
  show ?thesis
    unfolding create_ical_def m a
    by (simp split: option.splits list.splits sum.splits)
qed

theorem augment_discards_fragment_witness:
  "search_begin (to_normal_str ''BEGIN:VEVENT\<newline>SUMMARY:x\<newline>END:VEVENT\<newline>'') \<and>
   create_ical sample_env_located (Some ''BEGIN:VEVENT\<newline>SUMMARY:x\<newline>END:VEVENT\<newline>'') None ''en_DK''
       [(''location'', PStr ''here'')]
     = Inr ''BEGIN:VCALENDAR\<newline>BEGIN:VEVENT\<newline>SUMMARY:x\<newline>LOCATION:here\<newline>END:VEVENT\<newline>END:VCALENDAR\<newline>''"
proof -
  have h: "search_begin (to_normal_str ''BEGIN:VEVENT\<newline>SUMMARY:x\<newline>END:VEVENT\<newline>'')"
    by code_simp
  have r: "(case from_ical sample_env_located
              (calendar_text (to_normal_str ''BEGIN:VEVENT\<newline>SUMMARY:x\<newline>END:VEVENT\<newline>'')) of
        None \<Rightarrow> Inl ValueError
      | Some my_instance \<Rightarrow>
          (case subcomponents my_instance of
             [] \<Rightarrow> Inl IndexError
           | component # others \<Rightarrow>
               (case merge_props sample_env_located [(''location'', PStr ''here'')] component of
                  Inl x \<Rightarrow> Inl x
                | Inr c \<Rightarrow>
                    Inr (to_normal_str (to_ical sample_env_located
                      (Component (cname my_instance) (cprops my_instance) (c # others)))))))
     = Inr ''BEGIN:VCALENDAR\<newline>BEGIN:VEVENT\<newline>SUMMARY:x\<newline>LOCATION:here\<newline>END:VEVENT\<newline>END:VCALENDAR\<newline>''"
    by code_simp
  from augment_discards_fragment [OF h, of sample_env_located None "''en_DK''"
      "[(''location'', PStr ''here'')]"] r h
  show ?thesis by (simp only:)
qed

text \<open>
  C1 as stated fails: for an event with a summary the output is the serialized calendar; the
  text with the fragment put before the first \<open>END:V\<close> line is another one.
\<close>

theorem augment_output_lacks_fragment:
  "create_ical sample_env (Some ''BEGIN:VEVENT\<newline>SUMMARY:x\<newline>END:VEVENT\<newline>'') None ''en_DK'' []
     = Inr ''BEGIN:VCALENDAR\<newline>BEGIN:VEVENT\<newline>SUMMARY:x\<newline>END:VEVENT\<newline>END:VCALENDAR\<newline>'' \<and>
   splice_before_first_end (strip ''BEGIN:VEVENT\<newline>SUMMARY:x\<newline>END:VEVENT\<newline>'')
       (to_normal_str (to_ical sample_env parsed_event))
     = ''BEGIN:VCALENDAR\<newline>BEGIN:VEVENT\<newline>SUMMARY:x\<newline>BEGIN:VEVENT\<newline>SUMMARY:x\<newline>END:VEVENT\<newline>END:VEVENT\<newline>END:VCALENDAR\<newline>'' \<and>
   create_ical sample_env (Some ''BEGIN:VEVENT\<newline>SUMMARY:x\<newline>END:VEVENT\<newline>'') None ''en_DK'' []
     \<noteq> Inr (splice_before_first_end (strip ''BEGIN:VEVENT\<newline>SUMMARY:x\<newline>END:VEVENT\<newline>'')
              (to_normal_str (to_ical sample_env parsed_event)))"
  by code_simp

subsection \<open>A fragment without a component\<close>

text \<open>
  C10: the claim is that the stripped fragment goes into the output as it is. The fragment is
  handed to \<open>re.sub\<close> as part of the replacement template, so its backslashes are read as
  escapes: of the description \<open>a\nb\<close> (backslash, \<open>n\<close>) the output has \<open>a\<close>, a line break
  and \<open>b\<close>, where the fragment put in as it is would keep the backslash; with \<open>\N\<close> in the
  fragment the call fails with \<open>re.error\<close>.
\<close>

theorem construct_splice_expands_escapes:
  "create_ical sample_env (Some (''DESCRIPTION:a'' @ [BSL] @ ''nb'')) None ''en_DK'' []
     = Inr ''BEGIN:VCALENDAR\<newline>VERSION:2.0\<newline>PRODID:-//python-caldav//caldav//en_DK\<newline>BEGIN:VEVENT\<newline>DTSTAMP:20200101T000000Z\<newline>UID:u1\<newline>DESCRIPTION:a\<newline>b\<newline>END:VEVENT\<newline>END:VCALENDAR\<newline>'' \<and>
   splice_before_first_end (strip (''DESCRIPTION:a'' @ [BSL] @ ''nb''))
       (to_normal_str (to_ical sample_env fresh_event))
     = ''BEGIN:VCALENDAR\<newline>VERSION:2.0\<newline>PRODID:-//python-caldav//caldav//en_DK\<newline>BEGIN:VEVENT\<newline>DTSTAMP:20200101T000000Z\<newline>UID:u1\<newline>DESCRIPTION:a'' @ [BSL] @ ''nb\<newline>END:VEVENT\<newline>END:VCALENDAR\<newline>'' \<and>
   create_ical sample_env (Some (''DESCRIPTION:a'' @ [BSL] @ ''Nb'')) None ''en_DK'' [] = Inl ReError"
  by code_simp

subsection \<open>Naive timestamps\<close>

text \<open>
  C4: the claim is that a naive timestamp keeps its wall clock reading and gets UTC attached.
  \<open>astimezone\<close> takes a naive value as local time of the system: where the system is one hour
  east of UTC, \<open>dtstart\<close> 2020-01-01T12:00:00 is merged as 2020-01-01T11:00:00 UTC.
\<close>

theorem naive_datetime_shifted_by_local_zone:
  "local_utcoffset sample_env 63713476800 = 3600 \<and>
   merged_tree sample_env None None ''en_DK''
       [(''dtstart'', PDatetime \<lparr>wall = 63713476800, tzinfo = None\<rparr>)]
     = Inr (Component ''VCALENDAR''
              [(''prodid'', PStr ''-//python-caldav//caldav//en_DK'', []),
               (''version'', PStr ''2.0'', [])]
              [Component ''VEVENT''
                 [(''dtstamp'', PDatetime \<lparr>wall = 63713433600, tzinfo = Some 0\<rparr>, []),
                  (''uid'', PStr ''u1'', []),
                  (''dtstart'', PDatetime \<lparr>wall = 63713473200, tzinfo = Some 0\<rparr>, [])] []],
            None)"
  by code_simp

end
